theory Spec2Isabelle
  imports Main "HOL-Library.Option_ord" "HOL-Library.Product_Lexorder"
begin

section \<open>Metadata store: the photos table\<close>

text \<open>
  One row of the table \<^verbatim>\<open>photos\<close> of TECH_DESIGN_V3.md (Database Schema). The column
  \<^verbatim>\<open>id\<close> is written \<open>id_key\<close> (it is the primary key; \<open>id\<close> is the identity function
  of HOL). A nullable column is an \<open>option\<close>, \<open>None\<close> being SQL NULL. Timestamps are
  epoch milliseconds, sizes are byte counts (JavaScript numbers, here \<open>int\<close>).
\<close>

record photo =
  id_key :: string
  folder_id :: string
  filename :: "string option"
  creation_time :: "int option"
  width :: "int option"
  height :: "int option"
  last_viewed_at :: "int option"
  cached_path :: "string option"
  cached_at :: "int option"
  cached_size_bytes :: "int option"

text \<open>
  The state the cache manager works on: the table (rows in table order), the files of the
  cache directory (path to size in bytes), and the two fields of \<^verbatim>\<open>CacheManager\<close>.
\<close>

record cache_state =
  rows :: "photo list"
  files :: "string \<rightharpoonup> int"
  consecutiveFailures :: nat
  isRunning :: bool

text \<open>
  \<^verbatim>\<open>UPDATE photos SET cached_path = NULL, cached_size_bytes = NULL WHERE id = ?\<close>
\<close>

definition clear_cache_columns :: "string \<Rightarrow> photo list \<Rightarrow> photo list" where
  "clear_cache_columns pid rs =
     map (\<lambda>r. if id_key r = pid then r\<lparr>cached_path := None, cached_size_bytes := None\<rparr> else r) rs"

text \<open>
  \<^verbatim>\<open>SELECT id, cached_path FROM photos WHERE cached_path IS NOT NULL
  ORDER BY last_viewed_at ASC LIMIT ?\<close>.
  SQLite sorts NULL before every value in ascending order, which is the order of
  \<open>option\<close> (\<open>None\<close> least). Rows with equal keys are returned in table order (the sort
  is stable).
\<close>

definition is_cached :: "photo \<Rightarrow> bool" where
  "is_cached r = (cached_path r \<noteq> None)"

definition oldest_cached :: "nat \<Rightarrow> photo list \<Rightarrow> photo list" where
  "oldest_cached count rs = take count (sort_key last_viewed_at (filter is_cached rs))"

text \<open>
  \<^verbatim>\<open>fs.promises.unlink\<close> under \<^verbatim>\<open>Promise.allSettled\<close>: the file is removed when it is
  there, and a rejection (the file is absent) is dropped.
\<close>

definition unlink_all :: "string list \<Rightarrow> (string \<rightharpoonup> int) \<Rightarrow> (string \<rightharpoonup> int)" where
  "unlink_all ps fs = (\<lambda>p. if p \<in> set ps then None else fs p)"

text \<open>\<^verbatim>\<open>CacheManager.evictOldest(count)\<close>: select, unlink the files, then one UPDATE per
  selected row.\<close>

definition evictOldest :: "nat \<Rightarrow> cache_state \<Rightarrow> cache_state" where
  "evictOldest count st =
     (let photos = oldest_cached count (rows st)
      in st\<lparr>files := unlink_all (List.map_filter cached_path photos) (files st),
             rows := foldl (\<lambda>rs p. clear_cache_columns (id_key p) rs) (rows st) photos\<rparr>)"

section \<open>Cache manager: the tick\<close>

record config =
  cachePath :: string
  maxCacheSizeMB :: int
  showWidth :: int
  showHeight :: int

text \<open>\<^verbatim>\<open>path.join(this.config.cachePath, `${photoId}.jpg`)\<close>, for a photo id that is a
  plain file name (Drive ids contain no path separator).\<close>

definition cache_file :: "config \<Rightarrow> string \<Rightarrow> string" where
  "cache_file cfg photoId = cachePath cfg @ ''/'' @ photoId @ ''.jpg''"

text \<open>
  What one call of \<^verbatim>\<open>downloadPhoto\<close> meets outside the program, in the order of its
  statements: \<^verbatim>\<open>drive.files.get\<close> rejects; the stream breaks after some bytes reached
  the file; the file is complete but the UPDATE rejects; or every statement succeeds and
  \<^verbatim>\<open>fs.promises.stat\<close> reports the size.
\<close>

datatype download_outcome =
  RequestFailed
  | StreamFailed int
  | UpdateFailed int
  | Downloaded int

record env =
  outcome :: "string \<Rightarrow> download_outcome"
  now :: "string \<Rightarrow> int"

text \<open>What a tick does that is seen from outside: download attempts and sleeps (ms).\<close>

datatype effect = Download string | Sleep int

text \<open>
  Modelled from the spec: \<^verbatim>\<open>getCacheSizeBytes\<close> is called by \<^verbatim>\<open>tick\<close> and not defined in
  TECH_DESIGN_V3.md; section 4.2 of the specification gives it as the sum of
  cachedSizeBytes over all cached rows (SQL SUM skips NULL).
\<close>

definition getCacheSizeBytes :: "photo list \<Rightarrow> int" where
  "getCacheSizeBytes rs = sum_list (map (\<lambda>r. case cached_size_bytes r of None \<Rightarrow> 0 | Some n \<Rightarrow> n) rs)"

text \<open>
  \<^verbatim>\<open>UPDATE photos SET cached_path = ?, cached_at = ?, cached_size_bytes = ? WHERE id = ?\<close>
\<close>

definition set_cache_columns :: "string \<Rightarrow> string \<Rightarrow> int \<Rightarrow> int \<Rightarrow> photo list \<Rightarrow> photo list" where
  "set_cache_columns pid filePath t sz rs =
     map (\<lambda>r. if id_key r = pid
              then r\<lparr>cached_path := Some filePath, cached_at := Some t, cached_size_bytes := Some sz\<rparr>
              else r) rs"

text \<open>\<^verbatim>\<open>CacheManager.downloadPhoto(photoId)\<close>; the boolean is \<open>True\<close> when the promise is
  fulfilled and \<open>False\<close> when it is rejected.\<close>

definition downloadPhoto :: "config \<Rightarrow> env \<Rightarrow> string \<Rightarrow> cache_state \<Rightarrow> bool \<times> cache_state" where
  "downloadPhoto cfg e photoId st =
     (let filePath = cache_file cfg photoId
      in case outcome e photoId of
           RequestFailed \<Rightarrow> (False, st)
         | StreamFailed n \<Rightarrow> (False, st\<lparr>files := (files st)(filePath \<mapsto> n)\<rparr>)
         | UpdateFailed n \<Rightarrow> (False, st\<lparr>files := (files st)(filePath \<mapsto> n)\<rparr>)
         | Downloaded n \<Rightarrow>
             (True, st\<lparr>files := (files st)(filePath \<mapsto> n),
                       rows := set_cache_columns photoId filePath (now e photoId) n (rows st)\<rparr>))"

text \<open>
  \<^verbatim>\<open>Promise.allSettled(photos.map(p => this.downloadPhoto(p.id)))\<close>: every download runs to
  its end whatever the others do; each writes its own file and its own row, so they are
  taken in the order of the list. The result is the list of settled statuses.
\<close>

fun download_all :: "config \<Rightarrow> env \<Rightarrow> string list \<Rightarrow> cache_state \<Rightarrow> bool list \<times> cache_state" where
  "download_all cfg e [] st = ([], st)"
| "download_all cfg e (p # ps) st =
     (let (ok, st') = downloadPhoto cfg e p st;
          (oks, st'') = download_all cfg e ps st'
      in (ok # oks, st''))"

text \<open>
  \<^verbatim>\<open>SELECT id FROM photos WHERE cached_path IS NULL
  ORDER BY last_viewed_at ASC NULLS FIRST LIMIT 5\<close>
\<close>

definition photos_to_cache :: "photo list \<Rightarrow> string list" where
  "photos_to_cache rs =
     map id_key (take 5 (sort_key last_viewed_at (filter (\<lambda>r. \<not> is_cached r) rs)))"

text \<open>Steps 1 and 2 of \<^verbatim>\<open>tick\<close>: the size check and the eviction.\<close>

definition tick_evict :: "config \<Rightarrow> cache_state \<Rightarrow> cache_state" where
  "tick_evict cfg st =
     (let cacheSize = getCacheSizeBytes (rows st)
      in if cacheSize > maxCacheSizeMB cfg * 1024 * 1024 then evictOldest 10 st else st)"

text \<open>Steps 3 to 5 of \<^verbatim>\<open>tick\<close>: the offline check, the batch and the failure counter.\<close>

definition tick_download :: "config \<Rightarrow> env \<Rightarrow> cache_state \<Rightarrow> cache_state \<times> effect list" where
  "tick_download cfg e st =
     (if consecutiveFailures st > 3
      then (st\<lparr>consecutiveFailures := 0\<rparr>, [Sleep 60000])
      else
        let photos = photos_to_cache (rows st)
        in if length photos = 0 then (st, [])
           else
             let (results, st') = download_all cfg e photos st;
                 failures = length (filter (\<lambda>ok. \<not> ok) results)
             in (if failures = length photos
                 then st'\<lparr>consecutiveFailures := consecutiveFailures st' + 1\<rparr>
                 else st'\<lparr>consecutiveFailures := 0\<rparr>,
                 map Download photos))"

text \<open>\<^verbatim>\<open>CacheManager.tick()\<close>, with the single-flight flag and its \<^verbatim>\<open>finally\<close>.\<close>

definition tick :: "config \<Rightarrow> env \<Rightarrow> cache_state \<Rightarrow> cache_state \<times> effect list" where
  "tick cfg e st =
     (if isRunning st then (st, [])
      else
        let (st', fx) = tick_download cfg e (tick_evict cfg (st\<lparr>isRunning := True\<rparr>))
        in (st'\<lparr>isRunning := False\<rparr>, fx))"

text \<open>\<open>n\<close> ticks in a row under the same outside conditions.\<close>

fun run_ticks :: "config \<Rightarrow> env \<Rightarrow> nat \<Rightarrow> cache_state \<Rightarrow> cache_state" where
  "run_ticks cfg e 0 st = st"
| "run_ticks cfg e (Suc n) st = run_ticks cfg e n (fst (tick cfg e st))"

subsection \<open>Concrete tables\<close>

definition example_config :: config where
  "example_config =
     \<lparr>cachePath = ''/cache'', maxCacheSizeMB = 20, showWidth = 1080, showHeight = 1920\<rparr>"

definition uncached_row :: "string \<Rightarrow> int option \<Rightarrow> photo" where
  "uncached_row pid viewed =
     \<lparr>id_key = pid, folder_id = ''folder1'', filename = Some (pid @ ''.png''),
      creation_time = Some 1700000000000, width = Some 1920, height = Some 1080,
      last_viewed_at = viewed, cached_path = None, cached_at = None, cached_size_bytes = None\<rparr>"

definition cached_row :: "string \<Rightarrow> int option \<Rightarrow> int \<Rightarrow> photo" where
  "cached_row pid viewed sz =
     (uncached_row pid viewed)
       \<lparr>cached_path := Some (cache_file example_config pid), cached_at := Some 1700000001000,
        cached_size_bytes := Some sz\<rparr>"

definition files_of_rows :: "photo list \<Rightarrow> (string \<rightharpoonup> int)" where
  "files_of_rows rs =
     map_of (List.map_filter
       (\<lambda>r. case (cached_path r, cached_size_bytes r) of
               (Some p, Some n) \<Rightarrow> Some (p, n) | _ \<Rightarrow> None) rs)"

definition state_of_rows :: "photo list \<Rightarrow> cache_state" where
  "state_of_rows rs = \<lparr>rows = rs, files = files_of_rows rs, consecutiveFailures = 0, isRunning = False\<rparr>"

text \<open>Every request to the provider is rejected.\<close>

definition offline_env :: env where
  "offline_env = \<lparr>outcome = (\<lambda>_. RequestFailed), now = (\<lambda>_. 1700000100000)\<rparr>"

text \<open>Three cached photos; \<open>b\<close> was never viewed, \<open>a\<close> was viewed before \<open>c\<close>.\<close>

definition three_cached :: cache_state where
  "three_cached = state_of_rows
     [cached_row ''a'' (Some 1700000005000) 4096, cached_row ''b'' None 2048,
      cached_row ''c'' (Some 1700000009000) 8192]"

text \<open>One photo waiting for its download, nothing cached.\<close>

definition one_uncached :: cache_state where
  "one_uncached = state_of_rows [uncached_row ''photo1'' None]"

text \<open>Twelve cached photos of 10 MiB each (120 MiB) under the 20 MiB limit of
  \<open>example_config\<close>; photo \<open>k\<close> was viewed at time \<open>k\<close>.\<close>

definition twelve_cached :: cache_state where
  "twelve_cached = state_of_rows
     (map (\<lambda>k. cached_row (replicate (Suc k) CHR ''p'') (Some (int k)) (10 * 1024 * 1024)) [0..<12])"

subsection \<open>Consistency of the cache columns\<close>

text \<open>
  The two shapes of a row as the specification words them (section 4.3.4): all cache
  fields null, or path, size and timestamp set with the size equal to the bytes of the
  file. TECH_DESIGN_V3.md has the file mode only.
\<close>

definition cache_fields_null :: "photo \<Rightarrow> bool" where
  "cache_fields_null r = (cached_path r = None \<and> cached_at r = None \<and> cached_size_bytes r = None)"

definition cache_fields_set :: "(string \<rightharpoonup> int) \<Rightarrow> photo \<Rightarrow> bool" where
  "cache_fields_set fs r =
     (case (cached_path r, cached_size_bytes r) of
        (Some p, Some n) \<Rightarrow> fs p = Some n \<and> cached_at r \<noteq> None
      | _ \<Rightarrow> False)"

definition all_null_or_set :: "cache_state \<Rightarrow> bool" where
  "all_null_or_set st = list_all (\<lambda>r. cache_fields_null r \<or> cache_fields_set (files st) r) (rows st)"

text \<open>
  What the code keeps: \<^verbatim>\<open>cached_path\<close> and \<^verbatim>\<open>cached_size_bytes\<close> are null together
  (\<^verbatim>\<open>cached_at\<close> is free then), or the path is the cache file of the row's id, the
  timestamp is set and the size is the size of that file.
\<close>

definition row_consistent :: "config \<Rightarrow> (string \<rightharpoonup> int) \<Rightarrow> photo \<Rightarrow> bool" where
  "row_consistent cfg fs r =
     (case cached_path r of
        None \<Rightarrow> cached_size_bytes r = None
      | Some p \<Rightarrow> p = cache_file cfg (id_key r) \<and> cached_at r \<noteq> None \<and>
                  cached_size_bytes r \<noteq> None \<and> fs p = cached_size_bytes r)"

definition cache_consistent :: "config \<Rightarrow> cache_state \<Rightarrow> bool" where
  "cache_consistent cfg st = list_all (row_consistent cfg (files st)) (rows st)"

text \<open>Every download succeeds with a file of 5000 bytes.\<close>

definition online_env :: env where
  "online_env = \<lparr>outcome = (\<lambda>_. Downloaded 5000), now = (\<lambda>_. 1700000100000)\<rparr>"

section \<open>Display: selection of the next photo\<close>

text \<open>
  What one display tick meets outside the program: the value \<^verbatim>\<open>RANDOM()\<close> gives for each
  row (by row id), the value of \<^verbatim>\<open>Date.now()\<close>, and whether the fire-and-forget UPDATE of
  \<^verbatim>\<open>last_viewed_at\<close> is carried out (its rejection is swallowed by \<^verbatim>\<open>.catch(() => {})\<close>).
\<close>

record display_env =
  random :: "string \<Rightarrow> int"
  clock :: int
  view_update_ok :: bool

text \<open>
  \<^verbatim>\<open>SELECT id, cached_path, filename FROM photos WHERE cached_path IS NOT NULL
  ORDER BY last_viewed_at ASC NULLS FIRST, RANDOM() LIMIT 1\<close>: the rows in the order of
  the pair (\<^verbatim>\<open>last_viewed_at\<close>, random value), lexicographically; the query returns the first.
\<close>

definition display_candidates :: "(string \<Rightarrow> int) \<Rightarrow> photo list \<Rightarrow> photo list" where
  "display_candidates rnd rs =
     sort_key (\<lambda>r. (last_viewed_at r, rnd (id_key r))) (filter is_cached rs)"

text \<open>\<^verbatim>\<open>UPDATE photos SET last_viewed_at = ? WHERE id = ?\<close>\<close>

definition mark_viewed :: "string \<Rightarrow> int \<Rightarrow> photo list \<Rightarrow> photo list" where
  "mark_viewed pid t rs = map (\<lambda>r. if id_key r = pid then r\<lparr>last_viewed_at := Some t\<rparr> else r) rs"

text \<open>
  \<^verbatim>\<open>PhotoDisplay.displayNext()\<close>. The result is the id sent to the front end with
  \<^verbatim>\<open>DISPLAY_PHOTO\<close>, or \<open>None\<close> when nothing is sent: no cached photo, or \<^verbatim>\<open>readFile\<close>
  rejects because the file is missing (the \<^verbatim>\<open>catch\<close> logs it, and \<^verbatim>\<open>last_viewed_at\<close> is
  not written).
\<close>

definition displayNext :: "display_env \<Rightarrow> cache_state \<Rightarrow> string option \<times> cache_state" where
  "displayNext d st =
     (case display_candidates (random d) (rows st) of
        [] \<Rightarrow> (None, st)
      | photo # _ \<Rightarrow>
          (case cached_path photo of
             None \<Rightarrow> (None, st)
           | Some p \<Rightarrow>
               (case files st p of
                  None \<Rightarrow> (None, st)
                | Some imageBuffer \<Rightarrow>
                    (Some (id_key photo),
                     if view_update_ok d
                     then st\<lparr>rows := mark_viewed (id_key photo) (clock d) (rows st)\<rparr>
                     else st))))"

text \<open>Consecutive display ticks; the emitted ids in order.\<close>

fun display_run :: "display_env list \<Rightarrow> cache_state \<Rightarrow> string option list \<times> cache_state" where
  "display_run [] st = ([], st)"
| "display_run (d # ds) st =
     (let (shown, st') = displayNext d st;
          (more, st'') = display_run ds st'
      in (shown # more, st''))"

text \<open>The ids of the cached rows last viewed before time \<open>T\<close>, or never.\<close>

definition unseen_ids :: "int \<Rightarrow> photo list \<Rightarrow> string set" where
  "unseen_ids T rs = id_key ` {r \<in> set rs. is_cached r \<and> last_viewed_at r < Some T}"

text \<open>Every cached row has its file in the cache directory.\<close>

definition readable :: "cache_state \<Rightarrow> bool" where
  "readable st =
     list_all (\<lambda>r. case cached_path r of None \<Rightarrow> True | Some p \<Rightarrow> files st p \<noteq> None) (rows st)"

text \<open>Three display ticks, one minute apart, after every time stored in \<open>three_cached\<close>.\<close>

definition three_ticks :: "display_env list" where
  "three_ticks =
     [\<lparr>random = (\<lambda>_. 7), clock = 1700000060000, view_update_ok = True\<rparr>,
      \<lparr>random = (\<lambda>_. 3), clock = 1700000120000, view_update_ok = True\<rparr>,
      \<lparr>random = (\<lambda>_. 5), clock = 1700000180000, view_update_ok = True\<rparr>]"

section \<open>Download with retry\<close>

text \<open>What a call of \<^verbatim>\<open>downloadWithRetry\<close> does that is seen from outside: the attempts
  (numbered from 1) and the sleeps between them (ms).\<close>

datatype retry_event = Attempt nat | Wait int

text \<open>
  The \<^verbatim>\<open>for (let attempt = 1; attempt <= maxRetries; attempt++)\<close> loop of
  \<^verbatim>\<open>downloadWithRetry\<close>. \<open>get k\<close> is what the \<open>k\<close>-th call of \<^verbatim>\<open>drive.files.get\<close> settles to:
  \<open>Inr\<close> the response, or \<open>Inl\<close> the error of a rejection. The result is \<open>Inl\<close> the error
  thrown, or \<open>Inr\<close> the value returned (\<open>None\<close> is \<^verbatim>\<open>undefined\<close>, when the loop body never
  runs).
\<close>

function retry_loop :: "(nat \<Rightarrow> string + 'r) \<Rightarrow> nat \<Rightarrow> nat \<Rightarrow> (string + 'r option) \<times> retry_event list" where
  "retry_loop get maxRetries attempt =
     (if attempt \<le> maxRetries
      then (case get attempt of
              Inr response \<Rightarrow> (Inr (Some response), [Attempt attempt])
            | Inl error \<Rightarrow>
                if attempt = maxRetries then (Inl error, [Attempt attempt])
                else
                  let (result, events) = retry_loop get maxRetries (attempt + 1)
                  in (result, Attempt attempt # Wait (int attempt * 1000) # events))
      else (Inr None, []))"
  by pat_completeness auto
termination
  by (relation "measure (\<lambda>(get, maxRetries, attempt). Suc maxRetries - attempt)") auto

definition downloadWithRetry :: "(nat \<Rightarrow> string + 'r) \<Rightarrow> nat \<Rightarrow> (string + 'r option) \<times> retry_event list" where
  "downloadWithRetry get maxRetries = retry_loop get maxRetries 1"

text \<open>Every attempt is rejected with a connection reset.\<close>

definition always_reset :: "nat \<Rightarrow> string + string" where
  "always_reset attempt = Inl ''ECONNRESET''"

text \<open>The sleeps of a trace, in order.\<close>

definition waits :: "retry_event list \<Rightarrow> int list" where
  "waits events = List.map_filter (\<lambda>ev. case ev of Wait ms \<Rightarrow> Some ms | Attempt _ \<Rightarrow> None) events"

text \<open>Attempts \<open>a\<close> to \<open>m\<close>, with a sleep of \<open>k\<close> seconds after each attempt \<open>k\<close> before the
  last.\<close>

definition linear_trace :: "nat \<Rightarrow> nat \<Rightarrow> retry_event list" where
  "linear_trace a m = concat (map (\<lambda>k. [Attempt k, Wait (int k * 1000)]) [a..<m]) @ [Attempt m]"

declare retry_loop.simps [simp del]

section \<open>Image validation and normalization\<close>

text \<open>What \<^verbatim>\<open>sharp(tempPath).metadata()\<close> reports of the downloaded image.\<close>

record image_metadata =
  format :: string
  pixel_width :: int
  pixel_height :: int

text \<open>\<^verbatim>\<open>String.prototype.toLowerCase\<close> on ASCII letters.\<close>

definition toLowerCase :: "string \<Rightarrow> string" where
  "toLowerCase s =
     map (\<lambda>c. let n = (of_char c :: nat) in if 65 \<le> n \<and> n \<le> 90 then char_of (n + 32) else c) s"

definition supportedFormats :: "string list" where
  "supportedFormats =
     [''jpeg'', ''jpg'', ''png'', ''webp'', ''gif'', ''heif'', ''heic'', ''tiff'', ''bmp'']"

text \<open>\<^verbatim>\<open>CacheManager.isValidImage(metadata)\<close> of TECH_DESIGN.md.\<close>

definition isValidImage :: "image_metadata \<Rightarrow> bool" where
  "isValidImage metadata =
     (if \<not> List.member supportedFormats (toLowerCase (format metadata)) then False
      else if pixel_width metadata < 100 \<or> pixel_height metadata < 100 then False
      else if pixel_width metadata > 16384 \<or> pixel_height metadata > 16384 then False
      else True)"

text \<open>Division rounded to the nearest integer, halves upwards (positive operands).\<close>

definition round_div :: "int \<Rightarrow> int \<Rightarrow> int" where
  "round_div a b = (2 * a + b) div (2 * b)"

text \<open>
  Modelled from the spec: the size \<^verbatim>\<open>sharp\<close> gives to
  \<^verbatim>\<open>.resize(showWidth, showHeight, { fit: 'inside', withoutEnlargement: true })\<close>; the
  library is not part of the repository. Section 4.3 of the specification: fit inside
  \<^verbatim>\<open>showWidth x showHeight\<close>, no upscale. An image that fits the box keeps its size;
  otherwise it is scaled, aspect ratio kept, so that the side that overflows most meets the
  box, the other side being rounded to a whole pixel and never less than one pixel.
\<close>

definition fit_inside :: "int \<Rightarrow> int \<Rightarrow> int \<Rightarrow> int \<Rightarrow> int \<times> int" where
  "fit_inside boxW boxH w h =
     (if w \<le> boxW \<and> h \<le> boxH then (w, h)
      else if h * boxW \<le> w * boxH
           then (boxW, max 1 (round_div (h * boxW) w))
           else (max 1 (round_div (w * boxH) h), boxH))"

text \<open>
  The pixel size of the file \<^verbatim>\<open>downloadAndCachePhoto\<close> writes to \<^verbatim>\<open>finalPath\<close>: the metadata
  check throws \<^verbatim>\<open>Invalid image\<close>, otherwise the image is flattened, resized and encoded as
  JPEG (flattening and encoding keep the pixel size). The check that follows, of the byte
  size of the file, looks at no pixel dimension.
\<close>

definition normalized_size :: "config \<Rightarrow> image_metadata \<Rightarrow> string + int \<times> int" where
  "normalized_size cfg metadata =
     (if \<not> isValidImage metadata then Inl (''Invalid image: '' @ format metadata)
      else Inr (fit_inside (showWidth cfg) (showHeight cfg)
                  (pixel_width metadata) (pixel_height metadata)))"

text \<open>A wide image that passes the validation.\<close>

definition panorama :: image_metadata where
  "panorama = \<lparr>format = ''png'', pixel_width = 3000, pixel_height = 200\<rparr>"

section \<open>Provider: recursive folder scan\<close>

text \<open>
  The part of the Drive the scan reads: the images a folder lists and its subfolders, by
  folder id (\<open>None\<close> is the root, \<^verbatim>\<open>folderId = null\<close>). Nothing keeps a folder from being
  listed under two parents or under one of its own descendants.
\<close>

record drive =
  image_files :: "string option \<Rightarrow> string list"
  child_folders :: "string option \<Rightarrow> string list"

text \<open>
  \<^verbatim>\<open>GDriveAPI.scanFolder(folderId, maxDepth, currentDepth)\<close> of TECH_DESIGN_V3.md. Each call
  starts with \<^verbatim>\<open>const visitedFolders = new Set()\<close>, its own set; the \<^verbatim>\<open>for\<close> loop over the
  subfolders is the fold, whose state is that set and \<^verbatim>\<open>photos\<close>. The first argument bounds
  the depth of nested calls: \<open>None\<close> says that the scan has not returned within that bound.
\<close>

fun scanFolder :: "nat \<Rightarrow> drive \<Rightarrow> string option \<Rightarrow> int \<Rightarrow> int \<Rightarrow> string list option" where
  "scanFolder 0 g folderId maxDepth currentDepth = None"
| "scanFolder (Suc fuel) g folderId maxDepth currentDepth =
     (let photos = image_files g folderId
      in if maxDepth = - 1 \<or> currentDepth < maxDepth
         then map_option snd
                (fold (\<lambda>folder acc.
                         case acc of
                           None \<Rightarrow> None
                         | Some (visitedFolders, photos) \<Rightarrow>
                             if folder \<in> set visitedFolders then acc
                             else (case scanFolder fuel g (Some folder) maxDepth (currentDepth + 1) of
                                     None \<Rightarrow> None
                                   | Some subPhotos \<Rightarrow>
                                       Some (folder # visitedFolders, photos @ subPhotos)))
                      (child_folders g folderId) (Some ([], photos)))
         else Some photos)"

text \<open>
  \<^verbatim>\<open>OneDriveProvider.scanFolder(folderId, maxDepth, currentDepth, visitedFolders)\<close>: the
  set is a parameter, handed on to every nested call, and each call returns it with the
  photos. The items of a folder come in listing order.
\<close>

datatype drive_item = ImageFile string | Folder string | OtherFile string

fun onedrive_scanFolder ::
  "nat \<Rightarrow> (string option \<Rightarrow> drive_item list) \<Rightarrow> string option \<Rightarrow> int \<Rightarrow> int \<Rightarrow> string list
     \<Rightarrow> (string list \<times> string list) option" where
  "onedrive_scanFolder 0 children folderId maxDepth currentDepth visitedFolders = None"
| "onedrive_scanFolder (Suc fuel) children folderId maxDepth currentDepth visitedFolders =
     (if (case folderId of Some f \<Rightarrow> f \<in> set visitedFolders | None \<Rightarrow> False)
      then Some ([], visitedFolders)
      else
        fold (\<lambda>item acc.
                case acc of
                  None \<Rightarrow> None
                | Some (photos, visited) \<Rightarrow>
                    (case item of
                       ImageFile photo \<Rightarrow> Some (photos @ [photo], visited)
                     | Folder sub \<Rightarrow>
                         if maxDepth = - 1 \<or> currentDepth < maxDepth
                         then (case onedrive_scanFolder fuel children (Some sub) maxDepth
                                      (currentDepth + 1) visited of
                                 None \<Rightarrow> None
                               | Some (subPhotos, visited') \<Rightarrow> Some (photos @ subPhotos, visited'))
                         else acc
                     | OtherFile _ \<Rightarrow> acc))
             (children folderId)
             (Some ([], case folderId of Some f \<Rightarrow> f # visitedFolders | None \<Rightarrow> visitedFolders)))"

text \<open>Folder \<open>A\<close> lists \<open>B\<close> and \<open>B\<close> lists \<open>A\<close>.\<close>

definition two_cycle :: drive where
  "two_cycle =
     \<lparr>image_files = (\<lambda>f. if f = Some ''A'' then [''a.jpg''] else if f = Some ''B'' then [''b.jpg''] else []),
      child_folders = (\<lambda>f. if f = Some ''A'' then [''B''] else if f = Some ''B'' then [''A''] else [])\<rparr>"

text \<open>No cycle: \<open>A\<close> lists \<open>B\<close> and \<open>C\<close>, both list \<open>D\<close>, which holds one image.\<close>

definition diamond :: drive where
  "diamond =
     \<lparr>image_files = (\<lambda>f. if f = Some ''D'' then [''d.jpg''] else []),
      child_folders = (\<lambda>f. if f = Some ''A'' then [''B'', ''C'']
                            else if f = Some ''B'' then [''D'']
                            else if f = Some ''C'' then [''D''] else [])\<rparr>"

text \<open>The same folders as a OneDrive listing.\<close>

definition items_of :: "drive \<Rightarrow> string option \<Rightarrow> drive_item list" where
  "items_of g folderId = map ImageFile (image_files g folderId) @ map Folder (child_folders g folderId)"

section \<open>Sync: incremental scan and the change cursor\<close>

text \<open>
  The store: the table \<^verbatim>\<open>photos\<close>, the table \<^verbatim>\<open>settings\<close> (key to value), and whether
  the two tables have been created.
\<close>

record metadata_store =
  photo_rows :: "photo list"
  settings :: "string \<rightharpoonup> string"
  has_schema :: bool

text \<open>The fields of a Drive file, of a change and of a page of \<^verbatim>\<open>drive.changes.list\<close> that
  \<^verbatim>\<open>scanForChanges\<close> reads (\<^verbatim>\<open>change.file\<close> is written \<open>file_rec\<close>).\<close>

record drive_file =
  file_id :: string
  name :: string
  mimeType :: "string option"
  trashed :: bool

record change =
  fileId :: string
  removed :: bool
  file_rec :: "drive_file option"

record changes_response =
  changes :: "change list"
  nextPageToken :: "string option"
  newStartPageToken :: "string option"

text \<open>The writes \<^verbatim>\<open>scanForChanges\<close> makes to the store, in the order it awaits them:
  \<^verbatim>\<open>db.deletePhoto(id)\<close> and \<^verbatim>\<open>db.saveSetting(key, value)\<close>.\<close>

datatype db_write = DeletePhoto string | SaveSetting string string

text \<open>JavaScript truthiness of a string that may be missing: \<^verbatim>\<open>undefined\<close> and the empty
  string are falsy.\<close>

definition truthy :: "string option \<Rightarrow> bool" where
  "truthy t = (case t of None \<Rightarrow> False | Some s \<Rightarrow> s \<noteq> [])"

text \<open>\<^verbatim>\<open>change.removed || change.file?.trashed\<close>\<close>

definition is_removed :: "change \<Rightarrow> bool" where
  "is_removed c = (removed c \<or> (case file_rec c of None \<Rightarrow> False | Some f \<Rightarrow> trashed f))"

text \<open>\<^verbatim>\<open>change.file?.mimeType?.startsWith('image/')\<close>\<close>

definition is_image :: "change \<Rightarrow> bool" where
  "is_image c =
     (case file_rec c of
        None \<Rightarrow> False
      | Some f \<Rightarrow> (case mimeType f of None \<Rightarrow> False | Some m \<Rightarrow> take 6 m = ''image/''))"

text \<open>The \<^verbatim>\<open>for (const change of response.data.changes)\<close> loop: a deletion is written to
  the store at once, an image file is pushed on \<^verbatim>\<open>changedPhotos\<close>.\<close>

fun apply_changes :: "change list \<Rightarrow> drive_file list \<Rightarrow> db_write list \<times> drive_file list" where
  "apply_changes [] changedPhotos = ([], changedPhotos)"
| "apply_changes (c # cs) changedPhotos =
     (if is_removed c
      then (let (ws, changed) = apply_changes cs changedPhotos
            in (DeletePhoto (fileId c) # ws, changed))
      else if is_image c
      then apply_changes cs (changedPhotos @ [the (file_rec c)])
      else apply_changes cs changedPhotos)"

text \<open>\<^verbatim>\<open>if (response.data.newStartPageToken) await this.db.saveSetting('changes_token', ...)\<close>\<close>

definition cursor_write :: "changes_response \<Rightarrow> db_write list" where
  "cursor_write response =
     (case newStartPageToken response of
        None \<Rightarrow> []
      | Some t \<Rightarrow> if t \<noteq> [] then [SaveSetting ''changes_token'' t] else [])"

text \<open>
  The \<^verbatim>\<open>do ... while (pageToken)\<close> loop. The argument is the sequence of pages the server
  answers with; when the loop asks for a page and there is none, the request is rejected and
  the scan throws (\<open>Inl\<close>), the writes made so far staying in the store.
\<close>

fun changes_loop ::
  "changes_response list \<Rightarrow> drive_file list \<Rightarrow> db_write list \<times> (string + drive_file list)" where
  "changes_loop [] changedPhotos = ([], Inl ''changes.list rejected'')"
| "changes_loop (response # rest) changedPhotos =
     (let (ws, changed) = apply_changes (changes response) changedPhotos
      in if truthy (nextPageToken response)
         then (let (ws', result) = changes_loop rest changed
               in (ws @ cursor_write response @ ws', result))
         else (ws @ cursor_write response, Inr changed))"

text \<open>What a scan meets outside the program: the token of
  \<^verbatim>\<open>drive.changes.getStartPageToken()\<close>, what \<^verbatim>\<open>this.fullScan()\<close> returns, and the pages of
  \<^verbatim>\<open>drive.changes.list\<close>.\<close>

record scan_env =
  startPageToken :: string
  fullScan :: "drive_file list"
  responses :: "changes_response list"

text \<open>\<^verbatim>\<open>scanForChanges()\<close>: the writes to the store in order, and the result (\<open>Inr\<close> the
  photos returned to the caller, \<open>Inl\<close> an error thrown).\<close>

definition scanForChanges ::
  "scan_env \<Rightarrow> metadata_store \<Rightarrow> db_write list \<times> (string + drive_file list)" where
  "scanForChanges e db =
     (let token = settings db ''changes_token''
      in if \<not> truthy token
         then ([SaveSetting ''changes_token'' (startPageToken e)], Inr (fullScan e))
         else changes_loop (responses e) [])"

text \<open>
  Modelled from the spec: \<^verbatim>\<open>db.deletePhoto\<close> and \<^verbatim>\<open>db.saveSetting\<close> are called by
  \<^verbatim>\<open>scanForChanges\<close> and not defined in TECH_DESIGN_V3.md. Section 4.4 of the
  specification applies a deletion to the row of that id; the schema of TECH_DESIGN_V3.md
  has no deletion flag, so the row is removed. A setting is a key/value pair, set by key.
\<close>

definition apply_write :: "db_write \<Rightarrow> metadata_store \<Rightarrow> metadata_store" where
  "apply_write w db =
     (case w of
        DeletePhoto pid \<Rightarrow> db\<lparr>photo_rows := filter (\<lambda>r. id_key r \<noteq> pid) (photo_rows db)\<rparr>
      | SaveSetting k v \<Rightarrow> db\<lparr>settings := (settings db)(k \<mapsto> v)\<rparr>)"

definition apply_writes :: "db_write list \<Rightarrow> metadata_store \<Rightarrow> metadata_store" where
  "apply_writes ws db = fold apply_write ws db"

text \<open>The deletions of a page, the files it pushes, and its writes: the deletions, then the
  cursor when the page carries one.\<close>

definition deletions :: "change list \<Rightarrow> db_write list" where
  "deletions cs = map (\<lambda>c. DeletePhoto (fileId c)) (filter is_removed cs)"

definition pushed_files :: "change list \<Rightarrow> drive_file list" where
  "pushed_files cs = map (\<lambda>c. the (file_rec c)) (filter (\<lambda>c. \<not> is_removed c \<and> is_image c) cs)"

definition page_writes :: "changes_response \<Rightarrow> db_write list" where
  "page_writes response = deletions (changes response) @ cursor_write response"

text \<open>The pages the loop reads: up to the first page without \<^verbatim>\<open>nextPageToken\<close>.\<close>

fun consumed :: "changes_response list \<Rightarrow> changes_response list" where
  "consumed [] = []"
| "consumed (response # rest) =
     response # (if truthy (nextPageToken response) then consumed rest else [])"

text \<open>The writes of the pages before page \<open>i\<close>, then the deletions of page \<open>i\<close>.\<close>

definition writes_until :: "nat \<Rightarrow> changes_response list \<Rightarrow> db_write list" where
  "writes_until i pages = concat (map page_writes (take i pages)) @ deletions (changes (pages ! i))"

text \<open>A scan whose only page reports one new image and carries the new cursor \<open>t2\<close>; a store
  synchronised up to cursor \<open>t1\<close>.\<close>

definition new_photo :: drive_file where
  "new_photo = \<lparr>file_id = ''n1'', name = ''new.jpg'', mimeType = Some ''image/jpeg'', trashed = False\<rparr>"

definition one_creation :: scan_env where
  "one_creation =
     \<lparr>startPageToken = ''t0'', fullScan = [],
      responses = [\<lparr>changes = [\<lparr>fileId = ''n1'', removed = False, file_rec = Some new_photo\<rparr>],
                    nextPageToken = None, newStartPageToken = Some ''t2''\<rparr>]\<rparr>"

definition synced_store :: metadata_store where
  "synced_store = \<lparr>photo_rows = [], settings = [''changes_token'' \<mapsto> ''t1''], has_schema = True\<rparr>"

text \<open>Two pages: a deletion and a new image, then a deletion and the new cursor \<open>t3\<close>.\<close>

definition two_pages :: scan_env where
  "two_pages =
     \<lparr>startPageToken = ''t0'', fullScan = [],
      responses =
        [\<lparr>changes = [\<lparr>fileId = ''x1'', removed = True, file_rec = None\<rparr>,
                     \<lparr>fileId = ''n1'', removed = False, file_rec = Some new_photo\<rparr>],
          nextPageToken = Some ''page2'', newStartPageToken = None\<rparr>,
         \<lparr>changes = [\<lparr>fileId = ''x2'', removed = True, file_rec = None\<rparr>],
          nextPageToken = None, newStartPageToken = Some ''t3''\<rparr>]\<rparr>"

section \<open>Metadata store: initialization\<close>

text \<open>
  The file at \<^verbatim>\<open>dbPath\<close>: a database with its content, or bytes that SQLite does not
  accept. \<open>None\<close> (of the \<open>option\<close>) is no file.
\<close>

datatype db_file = Healthy metadata_store | Corrupt

text \<open>
  What \<^verbatim>\<open>initDatabase\<close> meets outside the program: \<^verbatim>\<open>sqlite.open\<close> rejects, the 5000 ms
  timer wins the race against \<^verbatim>\<open>PRAGMA integrity_check\<close>, \<^verbatim>\<open>unlink\<close> cannot remove the
  file, the second \<^verbatim>\<open>sqlite.open\<close> rejects, \<^verbatim>\<open>createSchema\<close> rejects.
\<close>

record init_env =
  open_rejects :: bool
  check_times_out :: bool
  unlink_rejects :: bool
  reopen_rejects :: bool
  createSchema_rejects :: bool

text \<open>\<^verbatim>\<open>sqlite.open\<close> opens the file, or creates a database without tables when there is
  none.\<close>

definition empty_db :: metadata_store where
  "empty_db = \<lparr>photo_rows = [], settings = Map.empty, has_schema = False\<rparr>"

definition sqlite_open :: "db_file option \<Rightarrow> db_file" where
  "sqlite_open disk = (case disk of None \<Rightarrow> Healthy empty_db | Some f \<Rightarrow> f)"

text \<open>
  The \<^verbatim>\<open>catch\<close> block of \<^verbatim>\<open>initDatabase\<close>: unlink (a rejection is swallowed), open, create
  the two tables. The result is the database handed to the caller (\<open>Inr\<close>) or the error that
  escapes (\<open>Inl\<close>), with the file left at \<^verbatim>\<open>dbPath\<close>. \<^verbatim>\<open>createSchema\<close> is not in
  TECH_DESIGN_V3.md: it creates the tables \<^verbatim>\<open>photos\<close> and \<^verbatim>\<open>settings\<close> of the schema, and
  throws on a file that is not a database.
\<close>

definition rebuild :: "init_env \<Rightarrow> db_file option \<Rightarrow> (string + metadata_store) \<times> db_file option" where
  "rebuild e disk =
     (let disk' = (if unlink_rejects e then disk else None)
      in if reopen_rejects e then (Inl ''open'', disk')
         else (case sqlite_open disk' of
                 Corrupt \<Rightarrow> (Inl ''createSchema'', Some Corrupt)
               | Healthy db \<Rightarrow>
                   if createSchema_rejects e then (Inl ''createSchema'', Some (Healthy db))
                   else (Inr (db\<lparr>has_schema := True\<rparr>), Some (Healthy (db\<lparr>has_schema := True\<rparr>)))))"

text \<open>
  \<^verbatim>\<open>initDatabase(dbPath)\<close>. The \<^verbatim>\<open>try\<close> block returns the opened database when the check
  answers \<^verbatim>\<open>ok\<close> in time; a rejected open, a timeout, and a check that throws or answers
  anything else all reach the \<^verbatim>\<open>catch\<close> block.
\<close>

definition initDatabase :: "init_env \<Rightarrow> db_file option \<Rightarrow> (string + metadata_store) \<times> db_file option" where
  "initDatabase e disk =
     (if open_rejects e then rebuild e disk
      else
        (case sqlite_open disk of
           Corrupt \<Rightarrow> rebuild e (Some Corrupt)
         | Healthy db \<Rightarrow>
             if check_times_out e then rebuild e (Some (Healthy db))
             else (Inr db, Some (Healthy db))))"

text \<open>Nothing fails and the check is answered in time.\<close>

definition quiet_env :: init_env where
  "quiet_env = \<lparr>open_rejects = False, check_times_out = False, unlink_rejects = False,
                 reopen_rejects = False, createSchema_rejects = False\<rparr>"

section \<open>Eviction: frame condition\<close>

lemma clear_cache_columns_length: "length (clear_cache_columns pid rs) = length rs"
  by (simp add: clear_cache_columns_def)

lemma clear_all_length:
  "length (foldl (\<lambda>rs p. clear_cache_columns (id_key p) rs) rs ps) = length rs"
  by (induction ps arbitrary: rs) (simp_all add: clear_cache_columns_length)

lemma clear_all_nth:
  assumes "i < length rs"
  shows "foldl (\<lambda>rs p. clear_cache_columns (id_key p) rs) rs ps ! i =
         (if id_key (rs ! i) \<in> id_key ` set ps
          then (rs ! i)\<lparr>cached_path := None, cached_size_bytes := None\<rparr>
          else rs ! i)"
  using assms
proof (induction ps arbitrary: rs)
  case Nil
  then show ?case by simp
next
  case (Cons p ps)
  have len: "i < length (clear_cache_columns (id_key p) rs)"
    using Cons.prems by (simp add: clear_cache_columns_length)
  have step: "clear_cache_columns (id_key p) rs ! i =
      (if id_key (rs ! i) = id_key p
       then (rs ! i)\<lparr>cached_path := None, cached_size_bytes := None\<rparr> else rs ! i)"
    using Cons.prems by (simp add: clear_cache_columns_def)
  show ?case
    using Cons.IH [OF len] step by auto
qed

text \<open>
  C10. An eviction pass changes nothing but the columns \<^verbatim>\<open>cached_path\<close> and
  \<^verbatim>\<open>cached_size_bytes\<close> of the rows it selected: the table keeps its rows in place,
  every row keeps \<^verbatim>\<open>id\<close>, \<^verbatim>\<open>folder_id\<close>, \<^verbatim>\<open>filename\<close>, \<^verbatim>\<open>creation_time\<close>,
  \<^verbatim>\<open>width\<close>, \<^verbatim>\<open>height\<close>, \<^verbatim>\<open>last_viewed_at\<close> and \<^verbatim>\<open>cached_at\<close>, and a row whose id
  was not selected is the row it was.
\<close>

theorem evictOldest_frame:
  "length (rows (evictOldest count st)) = length (rows st) \<and>
   (\<forall>i < length (rows st).
      let r = rows st ! i; r' = rows (evictOldest count st) ! i
      in id_key r' = id_key r \<and> folder_id r' = folder_id r \<and> filename r' = filename r \<and>
         creation_time r' = creation_time r \<and> width r' = width r \<and> height r' = height r \<and>
         last_viewed_at r' = last_viewed_at r \<and> cached_at r' = cached_at r \<and>
         (id_key r \<notin> id_key ` set (oldest_cached count (rows st)) \<longrightarrow> r' = r))"
  by (simp add: evictOldest_def Let_def clear_all_length clear_all_nth)

theorem evictOldest_frame_witness:
  "0 < length (rows three_cached) \<and>
   id_key (rows three_cached ! 0) \<notin> id_key ` set (oldest_cached 1 (rows three_cached)) \<and>
   rows (evictOldest 1 three_cached) ! 0 = rows three_cached ! 0 \<and>
   cached_at (rows (evictOldest 1 three_cached) ! 1) = cached_at (rows three_cached ! 1)"
proof -
  have h: "0 < length (rows three_cached) \<and> 1 < length (rows three_cached) \<and>
      id_key (rows three_cached ! 0) \<notin> id_key ` set (oldest_cached 1 (rows three_cached))"
    by code_simp
  from evictOldest_frame [of 1 three_cached] h show ?thesis
    by (auto simp: Let_def)
qed

section \<open>Eviction on a tick\<close>

lemma clear_all_map:
  "foldl (\<lambda>rs p. clear_cache_columns (id_key p) rs) rs ps =
   map (\<lambda>r. if id_key r \<in> id_key ` set ps
            then r\<lparr>cached_path := None, cached_size_bytes := None\<rparr> else r) rs"
  by (rule nth_equalityI) (simp_all add: clear_all_length clear_all_nth)

lemma sorted_take_le_drop:
  assumes "sorted (map f xs)" "x \<in> set (take n xs)" "y \<in> set (drop n xs)"
  shows "f x \<le> f y"
proof -
  have "sorted (map f (take n xs @ drop n xs))" using assms(1) by simp
  then show ?thesis using assms(2,3) unfolding map_append sorted_append by auto
qed

lemma oldest_cached_length: "length (oldest_cached n rs) = min n (length (filter is_cached rs))"
  by (simp add: oldest_cached_def min.commute)

lemma oldest_cached_subset: "set (oldest_cached n rs) \<subseteq> set (filter is_cached rs)"
  using set_take_subset [of n "sort_key last_viewed_at (filter is_cached rs)"]
  by (simp add: oldest_cached_def)

lemma oldest_cached_oldest:
  assumes p: "p \<in> set (oldest_cached n rs)"
    and r: "r \<in> set (filter is_cached rs)" "r \<notin> set (oldest_cached n rs)"
  shows "last_viewed_at p \<le> last_viewed_at r"
proof -
  let ?s = "sort_key last_viewed_at (filter is_cached rs)"
  have "r \<in> set (take n ?s @ drop n ?s)" using r(1) by simp
  then have "r \<in> set (drop n ?s)" using r(2) unfolding set_append by (simp add: oldest_cached_def)
  then show ?thesis
    using sorted_take_le_drop [of last_viewed_at ?s p n r] p by (simp add: oldest_cached_def)
qed

lemma evict_rows_cached:
  assumes d: "distinct (map id_key rs)" and sub: "set ev \<subseteq> set rs"
  shows "filter is_cached (map (\<lambda>r. if id_key r \<in> id_key ` set ev
            then r\<lparr>cached_path := None, cached_size_bytes := None\<rparr> else r) rs) =
         filter (\<lambda>r. r \<notin> set ev) (filter is_cached rs)"
proof -
  let ?g = "\<lambda>r. if id_key r \<in> id_key ` set ev
            then r\<lparr>cached_path := None, cached_size_bytes := None\<rparr> else r"
  have inj: "inj_on id_key (set rs)" using d by (simp add: distinct_map)
  have mem: "(id_key r \<in> id_key ` set ev) = (r \<in> set ev)" if "r \<in> set rs" for r
    using inj sub that by (auto dest: inj_onD)
  have "filter is_cached (map ?g rs) = map ?g (filter (is_cached \<circ> ?g) rs)"
    by (simp add: filter_map)
  also have "filter (is_cached \<circ> ?g) rs = filter (\<lambda>r. is_cached r \<and> r \<notin> set ev) rs"
    by (rule filter_cong) (auto simp: mem is_cached_def)
  also have "map ?g (filter (\<lambda>r. is_cached r \<and> r \<notin> set ev) rs) =
      filter (\<lambda>r. is_cached r \<and> r \<notin> set ev) rs"
    by (rule map_idI) (auto simp: mem)
  finally show ?thesis by (simp add: conj_commute)
qed

text \<open>
  C3, as the claim states it, fails. Twelve cached photos of 10 MiB stand against a limit
  of 20 MiB. The tick evicts ten rows and stops: 20 MiB stay cached, which is more than
  the limit less 10 MiB, and two cached rows are still there to evict.
\<close>

theorem tick_eviction_misses_headroom:
  "maxCacheSizeMB example_config * 1024 * 1024 < getCacheSizeBytes (rows twelve_cached) \<and>
   \<not> (getCacheSizeBytes (rows (fst (tick example_config offline_env twelve_cached)))
        \<le> maxCacheSizeMB example_config * 1024 * 1024 - 10 * 1024 * 1024
      \<or> filter is_cached (rows (fst (tick example_config offline_env twelve_cached))) = [])"
  by code_simp

text \<open>
  C3, amended. On a tick at whose start the sum of \<^verbatim>\<open>cached_size_bytes\<close> exceeds
  \<^verbatim>\<open>maxCacheSizeMB * 1024 * 1024\<close>, the eviction step clears one batch of rows: the ten
  cached rows that come first by \<^verbatim>\<open>last_viewed_at\<close> ascending (NULL first), or all cached
  rows when there are fewer than ten. The rows still cached afterwards are the cached rows
  outside the batch, unchanged, and none of them was viewed before a row of the batch. No
  byte target takes part.
\<close>

theorem tick_evict_oldest_ten:
  assumes d: "distinct (map id_key (rows st))"
    and over: "maxCacheSizeMB cfg * 1024 * 1024 < getCacheSizeBytes (rows st)"
  shows "length (oldest_cached 10 (rows st)) = min 10 (length (filter is_cached (rows st))) \<and>
         filter is_cached (rows (tick_evict cfg st)) =
           filter (\<lambda>r. r \<notin> set (oldest_cached 10 (rows st))) (filter is_cached (rows st)) \<and>
         (\<forall>p \<in> set (oldest_cached 10 (rows st)).
            p \<in> set (rows st) \<and> is_cached p \<and>
            (\<forall>r \<in> set (filter is_cached (rows (tick_evict cfg st))).
               last_viewed_at p \<le> last_viewed_at r))"
proof -
  let ?ev = "oldest_cached 10 (rows st)"
  have sub: "set ?ev \<subseteq> set (rows st)" using oldest_cached_subset [of 10 "rows st"] by auto
  have rows': "rows (tick_evict cfg st) =
      map (\<lambda>r. if id_key r \<in> id_key ` set ?ev
            then r\<lparr>cached_path := None, cached_size_bytes := None\<rparr> else r) (rows st)"
    using over by (simp add: tick_evict_def evictOldest_def Let_def clear_all_map)
  have post: "filter is_cached (rows (tick_evict cfg st)) =
           filter (\<lambda>r. r \<notin> set ?ev) (filter is_cached (rows st))"
    unfolding rows' by (rule evict_rows_cached [OF d sub])
  have old: "last_viewed_at p \<le> last_viewed_at r"
    if "p \<in> set ?ev" "r \<in> set (filter is_cached (rows (tick_evict cfg st)))" for p r
    using that oldest_cached_oldest [of p 10 "rows st" r] unfolding post by simp
  show ?thesis
    using oldest_cached_length [of 10 "rows st"] post old oldest_cached_subset [of 10 "rows st"]
    by auto
qed

theorem tick_evict_oldest_ten_witness:
  "distinct (map id_key (rows twelve_cached)) \<and>
   maxCacheSizeMB example_config * 1024 * 1024 < getCacheSizeBytes (rows twelve_cached) \<and>
   length (oldest_cached 10 (rows twelve_cached)) = 10 \<and>
   length (filter is_cached (rows (tick_evict example_config twelve_cached))) = 2"
proof -
  have h: "distinct (map id_key (rows twelve_cached)) \<and>
      maxCacheSizeMB example_config * 1024 * 1024 < getCacheSizeBytes (rows twelve_cached) \<and>
      length (filter is_cached (rows twelve_cached)) = 12 \<and>
      length (filter (\<lambda>r. r \<notin> set (oldest_cached 10 (rows twelve_cached)))
                (filter is_cached (rows twelve_cached))) = 2"
    by code_simp
  from tick_evict_oldest_ten [of twelve_cached example_config] h show ?thesis
    by simp
qed

section \<open>Cooling after failed ticks\<close>

text \<open>
  C2. Every download fails. After three ticks the counter is 3, and the tick that follows
  tests \<^verbatim>\<open>consecutiveFailures > 3\<close>: it does not sleep, it attempts the download again
  and the counter goes to 4. The tick that skips the downloads and sleeps 60 s is the one
  after the fourth failed tick.
\<close>

theorem tick_after_three_failed_ticks:
  "consecutiveFailures (run_ticks example_config offline_env 3 one_uncached) = 3 \<and>
   snd (tick example_config offline_env (run_ticks example_config offline_env 3 one_uncached))
     = [Download ''photo1''] \<and>
   consecutiveFailures (run_ticks example_config offline_env 4 one_uncached) = 4 \<and>
   snd (tick example_config offline_env (run_ticks example_config offline_env 4 one_uncached))
     = [Sleep 60000] \<and>
   consecutiveFailures (run_ticks example_config offline_env 5 one_uncached) = 0"
  by code_simp

section \<open>Consistency of the cache columns after a tick\<close>

lemma cache_consistentD:
  "cache_consistent cfg st \<Longrightarrow> r \<in> set (rows st) \<Longrightarrow> row_consistent cfg (files st) r"
  by (simp add: cache_consistent_def list_all_iff)

lemma cache_file_inj: "cache_file cfg a = cache_file cfg b \<Longrightarrow> a = b"
  by (simp add: cache_file_def)

lemma evictOldest_rows:
  "rows (evictOldest n st) =
     map (\<lambda>r. if id_key r \<in> id_key ` set (oldest_cached n (rows st))
              then r\<lparr>cached_path := None, cached_size_bytes := None\<rparr> else r) (rows st)"
  by (simp add: evictOldest_def Let_def clear_all_map)

lemma evictOldest_files:
  "files (evictOldest n st) =
     unlink_all (List.map_filter cached_path (oldest_cached n (rows st))) (files st)"
  by (simp add: evictOldest_def Let_def)

lemma map_filter_mem:
  assumes "p \<in> set (List.map_filter f xs)"
  obtains q where "q \<in> set xs" "f q = Some p"
  using assms by (auto simp: List.map_filter_def)

lemma row_consistent_path:
  "row_consistent cfg fs r \<Longrightarrow> cached_path r = Some p \<Longrightarrow> p = cache_file cfg (id_key r)"
  by (simp add: row_consistent_def)

lemma evict_keeps_file:
  assumes c: "cache_consistent cfg st"
    and r: "r \<in> set (rows st)" and out: "id_key r \<notin> id_key ` set (oldest_cached n (rows st))"
    and p: "cached_path r = Some p"
  shows "files (evictOldest n st) p = files st p"
proof -
  let ?ev = "oldest_cached n (rows st)"
  have sub: "set ?ev \<subseteq> set (rows st)" using oldest_cached_subset [of n "rows st"] by auto
  have pr: "p = cache_file cfg (id_key r)"
    by (rule row_consistent_path [OF cache_consistentD [OF c r] p])
  have "p \<notin> set (List.map_filter cached_path ?ev)"
  proof
    assume "p \<in> set (List.map_filter cached_path ?ev)"
    then obtain q where q: "q \<in> set ?ev" "cached_path q = Some p"
      by (rule map_filter_mem)
    have qr: "q \<in> set (rows st)" using q(1) sub by (rule subsetD [rotated])
    have pq: "p = cache_file cfg (id_key q)"
      by (rule row_consistent_path [OF cache_consistentD [OF c qr] q(2)])
    have "cache_file cfg (id_key r) = cache_file cfg (id_key q)" using pr pq by (rule trans [OF sym])
    then have "id_key r = id_key q" by (rule cache_file_inj)
    then have "id_key r \<in> id_key ` set ?ev" using q(1) by (simp only: imageI)
    then show False using out by (rule notE [rotated])
  qed
  then show ?thesis
    unfolding evictOldest_files unlink_all_def by (simp only: if_False)
qed

lemma row_consistent_files_cong:
  assumes "row_consistent cfg fs r" "\<And>p. cached_path r = Some p \<Longrightarrow> fs' p = fs p"
  shows "row_consistent cfg fs' r"
  using assms by (cases "cached_path r") (simp_all add: row_consistent_def)

lemma row_consistent_cleared:
  "row_consistent cfg fs (r\<lparr>cached_path := None, cached_size_bytes := None\<rparr>)"
  by (simp add: row_consistent_def)

lemma evict_mem:
  assumes "r' \<in> set (map (\<lambda>r. if id_key r \<in> S
              then r\<lparr>cached_path := None, cached_size_bytes := None\<rparr> else r) rs)"
  obtains r where "r \<in> set rs"
    "r' = (if id_key r \<in> S then r\<lparr>cached_path := None, cached_size_bytes := None\<rparr> else r)"
  using assms by auto

lemma evictOldest_consistent:
  assumes c: "cache_consistent cfg st"
  shows "cache_consistent cfg (evictOldest n st)"
proof -
  let ?ev = "oldest_cached n (rows st)"
  have "row_consistent cfg (files (evictOldest n st)) r'"
    if mem: "r' \<in> set (rows (evictOldest n st))" for r'
  proof -
    obtain r where r: "r \<in> set (rows st)"
      and r': "r' = (if id_key r \<in> id_key ` set ?ev
                    then r\<lparr>cached_path := None, cached_size_bytes := None\<rparr> else r)"
      using mem unfolding evictOldest_rows by (rule evict_mem)
    show ?thesis
    proof (cases "id_key r \<in> id_key ` set ?ev")
      case True
      then have "r' = r\<lparr>cached_path := None, cached_size_bytes := None\<rparr>" using r' by simp
      then show ?thesis by (simp only: row_consistent_cleared)
    next
      case False
      then have eq: "r' = r" using r' by simp
      have "row_consistent cfg (files (evictOldest n st)) r"
        by (rule row_consistent_files_cong [OF cache_consistentD [OF c r]])
           (rule evict_keeps_file [OF c r False])
      then show ?thesis by (simp only: eq)
    qed
  qed
  then show ?thesis by (simp add: cache_consistent_def list_all_iff)
qed

lemma evictOldest_ids: "map id_key (rows (evictOldest n st)) = map id_key (rows st)"
  unfolding evictOldest_rows by (induction "rows st") auto

lemma set_cache_columns_mem:
  assumes "r' \<in> set (set_cache_columns pid fp t n rs)"
  obtains q where "q \<in> set rs"
    "r' = (if id_key q = pid
          then q\<lparr>cached_path := Some fp, cached_at := Some t, cached_size_bytes := Some n\<rparr>
          else q)"
  using assms unfolding set_cache_columns_def by auto

lemma downloadPhoto_ids: "map id_key (rows (snd (downloadPhoto cfg e pid st))) = map id_key (rows st)"
  by (auto simp: downloadPhoto_def Let_def set_cache_columns_def split: download_outcome.splits)

lemma downloadPhoto_other:
  assumes "r \<in> set (rows (snd (downloadPhoto cfg e pid st)))" "id_key r \<noteq> pid"
  shows "r \<in> set (rows st)"
proof (cases "outcome e pid")
  case (Downloaded n)
  then have "r \<in> set (set_cache_columns pid (cache_file cfg pid) (now e pid) n (rows st))"
    using assms(1) by (simp add: downloadPhoto_def Let_def)
  then obtain q where "q \<in> set (rows st)"
    "r = (if id_key q = pid
          then q\<lparr>cached_path := Some (cache_file cfg pid), cached_at := Some (now e pid),
                  cached_size_bytes := Some n\<rparr> else q)"
    by (rule set_cache_columns_mem)
  then show ?thesis using assms(2) by (cases "id_key q = pid") simp_all
qed (use assms(1) in \<open>simp_all add: downloadPhoto_def Let_def\<close>)

lemma downloadPhoto_consistent:
  assumes c: "cache_consistent cfg st"
    and u: "\<forall>r \<in> set (rows st). id_key r = pid \<longrightarrow> cached_path r = None"
  shows "cache_consistent cfg (snd (downloadPhoto cfg e pid st))"
proof -
  have other: "row_consistent cfg ((files st)(cache_file cfg pid \<mapsto> n)) r"
    if "r \<in> set (rows st)" "cached_path r \<noteq> None" for r n
  proof -
    have rc: "row_consistent cfg (files st) r"
      using c that(1) by (simp add: cache_consistent_def list_all_iff)
    have "id_key r \<noteq> pid" using u that by auto
    then have "cache_file cfg (id_key r) \<noteq> cache_file cfg pid" using cache_file_inj by blast
    then show ?thesis using rc by (auto simp: row_consistent_def split: option.splits)
  qed
  have none: "row_consistent cfg fs r" if "r \<in> set (rows st)" "cached_path r = None" for r fs
    using cache_consistentD [OF c that(1)] that(2) by (simp add: row_consistent_def)
  have all: "row_consistent cfg ((files st)(cache_file cfg pid \<mapsto> n)) r" if "r \<in> set (rows st)" for r n
    using other [OF that] none [OF that] by (cases "cached_path r") auto
  show ?thesis
  proof (cases "outcome e pid")
    case RequestFailed
    then show ?thesis using c by (simp add: downloadPhoto_def)
  next
    case (StreamFailed n)
    then show ?thesis using all by (simp add: downloadPhoto_def Let_def cache_consistent_def list_all_iff)
  next
    case (UpdateFailed n)
    then show ?thesis using all by (simp add: downloadPhoto_def Let_def cache_consistent_def list_all_iff)
  next
    case (Downloaded n)
    have "row_consistent cfg ((files st)(cache_file cfg pid \<mapsto> n)) r'"
      if mem: "r' \<in> set (set_cache_columns pid (cache_file cfg pid) (now e pid) n (rows st))" for r'
    proof -
      obtain q where q: "q \<in> set (rows st)"
        and r': "r' = (if id_key q = pid
          then q\<lparr>cached_path := Some (cache_file cfg pid), cached_at := Some (now e pid),
                  cached_size_bytes := Some n\<rparr> else q)"
        using mem by (rule set_cache_columns_mem)
      show ?thesis
      proof (cases "id_key q = pid")
        case True
        then show ?thesis using r' by (simp add: row_consistent_def)
      next
        case False
        then show ?thesis using r' all [OF q] by simp
      qed
    qed
    then show ?thesis using Downloaded
      by (simp add: downloadPhoto_def Let_def cache_consistent_def list_all_iff)
  qed
qed

lemma download_all_consistent:
  assumes "cache_consistent cfg st" "distinct ps"
    and "\<forall>r \<in> set (rows st). id_key r \<in> set ps \<longrightarrow> cached_path r = None"
  shows "cache_consistent cfg (snd (download_all cfg e ps st)) \<and>
         map id_key (rows (snd (download_all cfg e ps st))) = map id_key (rows st)"
  using assms
proof (induction ps arbitrary: st)
  case Nil
  then show ?case by simp
next
  case (Cons p ps)
  let ?st' = "snd (downloadPhoto cfg e p st)"
  have c': "cache_consistent cfg ?st'"
    using downloadPhoto_consistent [of cfg st p e] Cons.prems by simp
  have u': "\<forall>r \<in> set (rows ?st'). id_key r \<in> set ps \<longrightarrow> cached_path r = None"
  proof (intro ballI impI)
    fix r assume r: "r \<in> set (rows ?st')" "id_key r \<in> set ps"
    then have "id_key r \<noteq> p" using Cons.prems(2) by auto
    then have "r \<in> set (rows st)" using downloadPhoto_other r(1) by blast
    then show "cached_path r = None" using Cons.prems(3) r(2) by simp
  qed
  have d': "distinct ps" using Cons.prems(2) by simp
  show ?case
    using Cons.IH [OF c' d' u'] downloadPhoto_ids [of cfg e p st]
    by (simp add: split_beta Let_def)
qed


lemma photos_to_cache_distinct:
  assumes "distinct (map id_key rs)"
  shows "distinct (photos_to_cache rs)"
proof -
  let ?u = "filter (\<lambda>r. \<not> is_cached r) rs"
  have "distinct (map id_key ?u)" using assms by (rule distinct_map_filter)
  then have "distinct (map id_key (sort_key last_viewed_at ?u))"
    by (simp add: distinct_map)
  then have "distinct (take 5 (map id_key (sort_key last_viewed_at ?u)))"
    by (rule distinct_take)
  then show ?thesis by (simp add: photos_to_cache_def take_map)
qed

lemma photos_to_cache_uncached:
  assumes d: "distinct (map id_key rs)" and r: "r \<in> set rs" and m: "id_key r \<in> set (photos_to_cache rs)"
  shows "cached_path r = None"
proof -
  let ?u = "filter (\<lambda>r. \<not> is_cached r) rs"
  obtain q where q: "q \<in> set (take 5 (sort_key last_viewed_at ?u))" "id_key q = id_key r"
    using m unfolding photos_to_cache_def by auto
  have "q \<in> set (sort_key last_viewed_at ?u)" using q(1) by (rule in_set_takeD)
  then have qu: "q \<in> set rs" "\<not> is_cached q" by simp_all
  have inj: "inj_on id_key (set rs)" using d by (simp add: distinct_map)
  have "q = r" by (rule inj_onD [OF inj q(2) qu(1) r])
  then show ?thesis using qu(2) by (simp add: is_cached_def)
qed

lemma cache_consistent_fields [simp]:
  "cache_consistent cfg (st\<lparr>isRunning := b\<rparr>) = cache_consistent cfg st"
  "cache_consistent cfg (st\<lparr>consecutiveFailures := k\<rparr>) = cache_consistent cfg st"
  by (simp_all add: cache_consistent_def)

lemma tick_evict_consistent:
  "cache_consistent cfg st \<Longrightarrow> cache_consistent cfg (tick_evict cfg st)"
  by (simp add: tick_evict_def Let_def evictOldest_consistent)

lemma tick_evict_ids: "map id_key (rows (tick_evict cfg st)) = map id_key (rows st)"
  by (simp add: tick_evict_def Let_def evictOldest_ids)

lemma tick_download_consistent:
  assumes c: "cache_consistent cfg st" and d: "distinct (map id_key (rows st))"
  shows "cache_consistent cfg (fst (tick_download cfg e st)) \<and>
         map id_key (rows (fst (tick_download cfg e st))) = map id_key (rows st)"
proof -
  have u: "\<forall>r \<in> set (rows st). id_key r \<in> set (photos_to_cache (rows st)) \<longrightarrow> cached_path r = None"
    using photos_to_cache_uncached [OF d] by blast
  have dl: "cache_consistent cfg (snd (download_all cfg e (photos_to_cache (rows st)) st)) \<and>
      map id_key (rows (snd (download_all cfg e (photos_to_cache (rows st)) st))) = map id_key (rows st)"
    by (rule download_all_consistent [OF c photos_to_cache_distinct [OF d] u])
  show ?thesis
    using c dl by (simp add: tick_download_def Let_def split_beta)
qed

text \<open>
  C7, as the claim states it, fails on the eviction path. \<^verbatim>\<open>evictOldest\<close> sets
  \<^verbatim>\<open>cached_path\<close> and \<^verbatim>\<open>cached_size_bytes\<close> to NULL and leaves \<^verbatim>\<open>cached_at\<close>: an
  evicted row has neither all cache fields null nor all of them set. Before the tick every
  row of the table is in the second shape.
\<close>

theorem tick_leaves_cached_at_on_evicted_rows:
  "all_null_or_set twelve_cached \<and>
   \<not> all_null_or_set (fst (tick example_config offline_env twelve_cached))"
  by code_simp

text \<open>
  C7, amended. On a table with unique ids: if before the tick every row has
  \<^verbatim>\<open>cached_path\<close> and \<^verbatim>\<open>cached_size_bytes\<close> both null, or has \<^verbatim>\<open>cached_path\<close> equal to
  the cache file of its id, \<^verbatim>\<open>cached_at\<close> set and \<^verbatim>\<open>cached_size_bytes\<close> equal to the size
  of that file, then the same holds when the tick returns, through the eviction and the
  downloads, whatever the outcome of each download. \<^verbatim>\<open>cached_at\<close> is not required to be
  null on a row without a cached file.
\<close>

theorem tick_keeps_cache_consistent:
  assumes d: "distinct (map id_key (rows st))" and c: "cache_consistent cfg st"
  shows "cache_consistent cfg (fst (tick cfg e st)) \<and>
         distinct (map id_key (rows (fst (tick cfg e st))))"
proof (cases "isRunning st")
  case True
  then show ?thesis using c d by (simp add: tick_def)
next
  case False
  let ?s1 = "tick_evict cfg (st\<lparr>isRunning := True\<rparr>)"
  have c1: "cache_consistent cfg ?s1" using c by (simp add: tick_evict_consistent)
  have d1: "distinct (map id_key (rows ?s1))" using d by (simp add: tick_evict_ids)
  have "cache_consistent cfg (fst (tick_download cfg e ?s1)) \<and>
         map id_key (rows (fst (tick_download cfg e ?s1))) = map id_key (rows ?s1)"
    by (rule tick_download_consistent [OF c1 d1])
  then show ?thesis using False d
    by (simp add: tick_def split_beta tick_evict_ids)
qed

theorem tick_keeps_cache_consistent_witness:
  "distinct (map id_key (rows twelve_cached)) \<and>
   cache_consistent example_config twelve_cached \<and>
   cache_consistent example_config (fst (tick example_config online_env twelve_cached))"
proof -
  have h: "distinct (map id_key (rows twelve_cached)) \<and>
      cache_consistent example_config twelve_cached"
    by code_simp
  from tick_keeps_cache_consistent [of twelve_cached example_config online_env] h
  show ?thesis by simp
qed

section \<open>Display: the cycle property\<close>

lemma display_candidates_set: "set (display_candidates rnd rs) = {r \<in> set rs. is_cached r}"
  by (auto simp: display_candidates_def)

lemma display_candidates_first:
  assumes "display_candidates rnd rs = p # ps" and "r \<in> set rs" "is_cached r"
  shows "last_viewed_at p \<le> last_viewed_at r"
proof -
  let ?k = "\<lambda>r. (last_viewed_at r, rnd (id_key r))"
  have "sorted (map ?k (display_candidates rnd rs))" by (simp add: display_candidates_def)
  then have s: "\<forall>x \<in> set ps. ?k p \<le> ?k x" using assms(1) by simp
  have "r \<in> set (p # ps)" using assms display_candidates_set [of rnd rs] by auto
  then have "?k p \<le> ?k r" using s by auto
  then show ?thesis by (auto simp: less_eq_prod_def)
qed

lemma mark_viewed_ids: "map id_key (mark_viewed pid t rs) = map id_key rs"
  by (induction rs) (simp_all add: mark_viewed_def)

lemma mark_viewed_unseen:
  assumes d: "distinct (map id_key rs)" and p: "p \<in> set rs" and T: "T \<le> t"
  shows "unseen_ids T (mark_viewed (id_key p) t rs) = unseen_ids T rs - {id_key p}"
proof -
  have inj: "inj_on id_key (set rs)" using d by (simp add: distinct_map)
  have same: "r = p" if "r \<in> set rs" "id_key r = id_key p" for r
    by (rule inj_onD [OF inj that(2) that(1) p])
  have nl: "\<not> Some t < Some T" using T by simp
  show ?thesis
  proof (intro set_eqI iffI)
    fix x assume "x \<in> unseen_ids T (mark_viewed (id_key p) t rs)"
    then obtain r where r: "r \<in> set rs"
      and x: "x = id_key (if id_key r = id_key p then r\<lparr>last_viewed_at := Some t\<rparr> else r)"
      and u: "is_cached (if id_key r = id_key p then r\<lparr>last_viewed_at := Some t\<rparr> else r)"
             "last_viewed_at (if id_key r = id_key p then r\<lparr>last_viewed_at := Some t\<rparr> else r) < Some T"
      unfolding unseen_ids_def mark_viewed_def by auto
    have ne: "id_key r \<noteq> id_key p" using u(2) nl by (cases "id_key r = id_key p") simp_all
    then show "x \<in> unseen_ids T rs - {id_key p}"
      using r x u unfolding unseen_ids_def by auto
  next
    fix x assume "x \<in> unseen_ids T rs - {id_key p}"
    then obtain r where r: "r \<in> set rs" "is_cached r" "last_viewed_at r < Some T" "x = id_key r"
      "id_key r \<noteq> id_key p"
      unfolding unseen_ids_def by auto
    then have "r \<in> set (mark_viewed (id_key p) t rs)"
      unfolding mark_viewed_def by (auto simp: image_iff intro!: bexI [of _ r])
    then show "x \<in> unseen_ids T (mark_viewed (id_key p) t rs)"
      using r unfolding unseen_ids_def by auto
  qed
qed

lemma readable_iff:
  "readable st = (\<forall>r \<in> set (rows st). \<forall>p. cached_path r = Some p \<longrightarrow> files st p \<noteq> None)"
  by (auto simp: readable_def list_all_iff split: option.splits)

lemma mark_viewed_readable:
  assumes "readable st"
  shows "readable (st\<lparr>rows := mark_viewed pid t (rows st)\<rparr>)"
  using assms unfolding readable_iff mark_viewed_def by auto


lemma finite_unseen_ids: "finite (unseen_ids T rs)"
  by (simp add: unseen_ids_def)

lemma displayNext_unseen:
  assumes rd: "readable st" and ok: "view_update_ok e"
    and ne: "unseen_ids T (rows st) \<noteq> {}"
  obtains p where "p \<in> set (rows st)" "id_key p \<in> unseen_ids T (rows st)"
    "displayNext e st =
       (Some (id_key p), st\<lparr>rows := mark_viewed (id_key p) (clock e) (rows st)\<rparr>)"
proof -
  obtain q where q: "q \<in> set (rows st)" "is_cached q" "last_viewed_at q < Some T"
    using ne unfolding unseen_ids_def by auto
  have "q \<in> set (display_candidates (random e) (rows st))"
    using q by (simp add: display_candidates_set)
  then obtain p ps where c: "display_candidates (random e) (rows st) = p # ps"
    by (cases "display_candidates (random e) (rows st)") auto
  have "p \<in> set (display_candidates (random e) (rows st))" using c by simp
  then have p: "p \<in> set (rows st)" "is_cached p" by (simp_all add: display_candidates_set)
  have "last_viewed_at p \<le> last_viewed_at q"
    by (rule display_candidates_first [OF c q(1) q(2)])
  then have "last_viewed_at p < Some T" using q(3) by (rule le_less_trans)
  then have u: "id_key p \<in> unseen_ids T (rows st)" using p unfolding unseen_ids_def by auto
  obtain path where path: "cached_path p = Some path" using p(2) by (auto simp: is_cached_def)
  then obtain imageBuffer where f: "files st path = Some imageBuffer"
    using rd p(1) unfolding readable_iff by blast
  have "displayNext e st =
       (Some (id_key p), st\<lparr>rows := mark_viewed (id_key p) (clock e) (rows st)\<rparr>)"
    using c path f ok by (simp add: displayNext_def)
  then show ?thesis using that p(1) u by blast
qed

lemma display_run_length: "length (fst (display_run ds st)) = length ds"
  by (induction ds arbitrary: st) (simp_all add: split_beta)

lemma display_run_unseen:
  assumes "distinct (map id_key (rows st))" "readable st"
    and "\<forall>e \<in> set ds. T \<le> clock e \<and> view_update_ok e"
    and "length ds \<le> card (unseen_ids T (rows st))"
  shows "\<exists>ids. fst (display_run ds st) = map Some ids \<and> distinct ids \<and>
               set ids \<subseteq> unseen_ids T (rows st)"
  using assms
proof (induction ds arbitrary: st)
  case Nil
  then show ?case by simp
next
  case (Cons e ds)
  have ne: "unseen_ids T (rows st) \<noteq> {}" using Cons.prems(4) by auto
  have e: "T \<le> clock e" "view_update_ok e" using Cons.prems(3) by simp_all
  obtain p where p: "p \<in> set (rows st)" "id_key p \<in> unseen_ids T (rows st)"
    and step: "displayNext e st =
       (Some (id_key p), st\<lparr>rows := mark_viewed (id_key p) (clock e) (rows st)\<rparr>)"
    by (rule displayNext_unseen [OF Cons.prems(2) e(2) ne])
  let ?st' = "st\<lparr>rows := mark_viewed (id_key p) (clock e) (rows st)\<rparr>"
  have u': "unseen_ids T (rows ?st') = unseen_ids T (rows st) - {id_key p}"
    using mark_viewed_unseen [OF Cons.prems(1) p(1) e(1)] by simp
  have d': "distinct (map id_key (rows ?st'))" using Cons.prems(1) by (simp add: mark_viewed_ids)
  have r': "readable ?st'" by (rule mark_viewed_readable [OF Cons.prems(2)])
  have t': "\<forall>e \<in> set ds. T \<le> clock e \<and> view_update_ok e" using Cons.prems(3) by simp
  have "card (unseen_ids T (rows ?st')) = card (unseen_ids T (rows st)) - 1"
    unfolding u' using p(2) by (simp add: finite_unseen_ids)
  then have c': "length ds \<le> card (unseen_ids T (rows ?st'))" using Cons.prems(4) by simp
  obtain ids where ids: "fst (display_run ds ?st') = map Some ids" "distinct ids"
    "set ids \<subseteq> unseen_ids T (rows ?st')"
    using Cons.IH [OF d' r' t' c'] by blast
  have "fst (display_run (e # ds) st) = map Some (id_key p # ids)"
    using step ids(1) by (simp add: split_beta)
  moreover have "distinct (id_key p # ids)" using ids(2,3) unfolding u' by auto
  moreover have "set (id_key p # ids) \<subseteq> unseen_ids T (rows st)" using ids(3) p(2) unfolding u' by auto
  ultimately show ?case by blast
qed

text \<open>
  C1. Let the table have unique ids and let \<open>n\<close> photos be cached, each with its file in
  place (reachable), each last viewed before time \<open>T\<close> or never. Take \<open>n\<close> consecutive
  display ticks, none before \<open>T\<close>, with the table otherwise untouched (stable) and the
  write of \<^verbatim>\<open>last_viewed_at\<close> carried out. Whatever the random tie-break values are, every
  tick emits a photo, no photo is emitted twice, and the emitted ids are exactly the ids of
  the \<open>n\<close> cached photos.
\<close>

theorem display_cycle:
  assumes d: "distinct (map id_key (rows st))"
    and rd: "readable st"
    and old: "\<forall>r \<in> set (rows st). is_cached r \<longrightarrow> last_viewed_at r < Some T"
    and ticks: "\<forall>e \<in> set ds. T \<le> clock e \<and> view_update_ok e"
    and n: "length ds = length (filter is_cached (rows st))"
  shows "distinct (fst (display_run ds st)) \<and>
         set (fst (display_run ds st)) = Some ` id_key ` set (filter is_cached (rows st))"
proof -
  have u: "unseen_ids T (rows st) = set (map id_key (filter is_cached (rows st)))"
    using old unfolding unseen_ids_def by auto
  have "distinct (map id_key (filter is_cached (rows st)))" using d by (rule distinct_map_filter)
  then have "card (set (map id_key (filter is_cached (rows st)))) =
      length (map id_key (filter is_cached (rows st)))"
    by (rule distinct_card)
  then have c: "card (unseen_ids T (rows st)) = length ds"
    unfolding u n by (simp only: length_map)
  then have "length ds \<le> card (unseen_ids T (rows st))" by simp
  from display_run_unseen [OF d rd ticks this]
  obtain ids where ids: "fst (display_run ds st) = map Some ids" "distinct ids"
    "set ids \<subseteq> unseen_ids T (rows st)" by blast
  have "length ids = length ds" using ids(1) display_run_length [of ds st] by (metis length_map)
  then have "card (set ids) = card (unseen_ids T (rows st))" using ids(2) c by (simp add: distinct_card)
  then have "set ids = unseen_ids T (rows st)"
    using ids(3) finite_unseen_ids by (metis card_subset_eq)
  then have "set ids = id_key ` set (filter is_cached (rows st))" using u by simp
  then show ?thesis using ids(1,2) by (simp add: distinct_map)
qed

theorem display_cycle_witness:
  "distinct (map id_key (rows three_cached)) \<and> readable three_cached \<and>
   length three_ticks = length (filter is_cached (rows three_cached)) \<and>
   distinct (fst (display_run three_ticks three_cached)) \<and>
   set (fst (display_run three_ticks three_cached)) =
     Some ` id_key ` set (filter is_cached (rows three_cached))"
proof -
  have h1: "distinct (map id_key (rows three_cached))" by code_simp
  have h2: "readable three_cached" by code_simp
  have h3: "\<forall>r \<in> set (rows three_cached). is_cached r \<longrightarrow> last_viewed_at r < Some 1700000010000"
    by code_simp
  have h4: "\<forall>e \<in> set three_ticks. 1700000010000 \<le> clock e \<and> view_update_ok e"
    by code_simp
  have h5: "length three_ticks = length (filter is_cached (rows three_cached))"
    by code_simp
  from display_cycle [OF h1 h2 h3 h4 h5] h1 h2 h5 show ?thesis by simp
qed

section \<open>Download with retry: the delays\<close>

lemma retry_loop_trace:
  assumes "a \<le> n"
  shows "\<exists>m. a \<le> m \<and> m \<le> n \<and>
             snd (retry_loop get n a) = linear_trace a m \<and>
             (\<forall>k. a \<le> k \<and> k < m \<longrightarrow> isl (get k)) \<and>
             fst (retry_loop get n a) = (case get m of Inr r \<Rightarrow> Inr (Some r) | Inl e \<Rightarrow> Inl e) \<and>
             (isl (get m) \<longrightarrow> m = n)"
  using assms
proof (induction get n a rule: retry_loop.induct)
  case (1 get n a)
  show ?case
  proof (cases "get a")
    case (Inr r)
    then have "retry_loop get n a = (Inr (Some r), [Attempt a])"
      using "1.prems" by (simp add: retry_loop.simps [of get n a])
    then show ?thesis using Inr "1.prems"
      by (intro exI [of _ a]) (auto simp: linear_trace_def)
  next
    case (Inl e)
    show ?thesis
    proof (cases "a = n")
      case True
      then have "retry_loop get n a = (Inl e, [Attempt a])"
        using Inl by (simp add: retry_loop.simps [of get n n])
      then show ?thesis using Inl True
        by (intro exI [of _ a]) (auto simp: linear_trace_def)
    next
      case False
      then have lt: "a + 1 \<le> n" using "1.prems" by simp
      obtain m where m: "a + 1 \<le> m" "m \<le> n"
        "snd (retry_loop get n (a + 1)) = linear_trace (a + 1) m"
        "\<forall>k. a + 1 \<le> k \<and> k < m \<longrightarrow> isl (get k)"
        "fst (retry_loop get n (a + 1)) = (case get m of Inr r \<Rightarrow> Inr (Some r) | Inl e \<Rightarrow> Inl e)"
        "isl (get m) \<longrightarrow> m = n"
        using "1.IH" [OF "1.prems" Inl False lt] by blast
      have unf: "retry_loop get n a =
          (fst (retry_loop get n (a + 1)),
           Attempt a # Wait (int a * 1000) # snd (retry_loop get n (a + 1)))"
        using Inl False "1.prems" by (simp add: retry_loop.simps [of get n a] split_beta)
      have tr: "linear_trace a m = Attempt a # Wait (int a * 1000) # linear_trace (a + 1) m"
        using m(1) by (simp add: linear_trace_def upt_conv_Cons)
      have fails: "\<forall>k. a \<le> k \<and> k < m \<longrightarrow> isl (get k)"
      proof (intro allI impI)
        fix k assume k: "a \<le> k \<and> k < m"
        show "isl (get k)"
        proof (cases "k = a")
          case True
          then show ?thesis using Inl by simp
        next
          case False
          then show ?thesis using k m(4) by simp
        qed
      qed
      show ?thesis
        using m(1,2,5,6) fails unf tr m(3)
        by (intro exI [of _ m]) simp
    qed
  qed
qed

text \<open>
  C8, as the claim states it, fails. With every attempt rejected by a transient error,
  \<^verbatim>\<open>downloadWithRetry\<close> makes three attempts, sleeps 1000 ms after the first and 2000 ms
  after the second, and throws: the first delay is one second, not two.
\<close>

theorem downloadWithRetry_first_delay:
  "downloadWithRetry always_reset 3 =
     (Inl ''ECONNRESET'', [Attempt 1, Wait 1000, Attempt 2, Wait 2000, Attempt 3]) \<and>
   waits (snd (downloadWithRetry always_reset 3)) = [1000, 2000] \<and>
   hd (waits (snd (downloadWithRetry always_reset 3))) \<noteq> 2000"
  by code_simp

text \<open>
  C8, amended. For \<^verbatim>\<open>maxRetries\<close> at least 1 (the default is 3): the download is attempted
  at most \<^verbatim>\<open>maxRetries\<close> times; attempt \<open>k + 1\<close> is made when attempt \<open>k\<close> was rejected,
  whatever the error, after a sleep of \<open>k * 1000\<close> ms (1 s, 2 s: linear in the attempt
  number, with no cap); the call returns the first response, or throws the error of the
  last attempt.
\<close>

theorem downloadWithRetry_linear_backoff:
  assumes "1 \<le> maxRetries"
  shows "\<exists>m. 1 \<le> m \<and> m \<le> maxRetries \<and>
             snd (downloadWithRetry get maxRetries) = linear_trace 1 m \<and>
             (\<forall>k. 1 \<le> k \<and> k < m \<longrightarrow> isl (get k)) \<and>
             fst (downloadWithRetry get maxRetries) =
               (case get m of Inr r \<Rightarrow> Inr (Some r) | Inl e \<Rightarrow> Inl e) \<and>
             (isl (get m) \<longrightarrow> m = maxRetries)"
  unfolding downloadWithRetry_def using assms by (rule retry_loop_trace)

theorem downloadWithRetry_linear_backoff_witness:
  "(1::nat) \<le> 3 \<and> snd (downloadWithRetry always_reset 3) = linear_trace 1 3"
proof -
  have h: "(1::nat) \<le> 3" by simp
  obtain m where m: "snd (downloadWithRetry always_reset 3) = linear_trace 1 m"
    "isl (always_reset m) \<longrightarrow> m = 3"
    using downloadWithRetry_linear_backoff [OF h, of always_reset] by blast
  have "m = 3" using m(2) by (simp add: always_reset_def)
  then show ?thesis using m(1) by simp
qed

section \<open>Image normalization: the size of the output\<close>

lemma div_le_of_less_mult:
  fixes x d c :: int
  assumes "0 < d" "x < d * (c + 1)"
  shows "x div d \<le> c"
proof -
  have "d * (x div d) + x mod d = x" by (rule mult_div_mod_eq)
  moreover have "0 \<le> x mod d" using assms(1) by (rule pos_mod_sign)
  ultimately have "d * (x div d) < d * (c + 1)" using assms(2) by linarith
  then have "x div d < c + 1" using assms(1) by (simp only: mult_less_cancel_left_pos)
  then show ?thesis by simp
qed

lemma round_div_le:
  assumes "0 < b" "a \<le> c * b"
  shows "round_div a b \<le> c"
  unfolding round_div_def
proof (rule div_le_of_less_mult)
  show "0 < 2 * b" using assms(1) by simp
  show "2 * a + b < 2 * b * (c + 1)" using assms by (simp add: algebra_simps)
qed

lemma shrink_side:
  fixes w h W H :: int
  assumes pos: "1 \<le> W" "1 \<le> H" "1 \<le> w" "1 \<le> h"
    and big: "\<not> (w \<le> W \<and> h \<le> H)" and lim: "h * W \<le> w * H"
  shows "W < w"
proof (rule ccontr)
  assume "\<not> W < w"
  then have wW: "w \<le> W" by simp
  then have hH: "H < h" using big by simp
  have "H * W < h * W" using hH pos(1) by (simp add: mult_strict_right_mono)
  moreover have "w * H \<le> W * H" using wW pos(2) by (simp add: mult_right_mono)
  ultimately show False using lim by (simp add: mult.commute)
qed

lemma fit_inside_bounds:
  assumes pos: "1 \<le> W" "1 \<le> H" "1 \<le> w" "1 \<le> h"
  shows "fst (fit_inside W H w h) \<le> W \<and> snd (fit_inside W H w h) \<le> H \<and>
         1 \<le> fst (fit_inside W H w h) \<and> 1 \<le> snd (fit_inside W H w h) \<and>
         fst (fit_inside W H w h) \<le> w \<and> snd (fit_inside W H w h) \<le> h"
proof (cases "w \<le> W \<and> h \<le> H")
  case True
  then show ?thesis using pos by (simp add: fit_inside_def)
next
  case big: False
  show ?thesis
  proof (cases "h * W \<le> w * H")
    case True
    have Ww: "W < w" by (rule shrink_side [OF pos big True])
    have r1: "round_div (h * W) w \<le> H"
      using pos(3) True by (intro round_div_le) (simp_all add: mult.commute)
    have "h * W \<le> h * w" using Ww pos(4) by (simp add: mult_left_mono)
    then have r2: "round_div (h * W) w \<le> h" using pos(3) by (intro round_div_le) simp_all
    have "fit_inside W H w h = (W, max 1 (round_div (h * W) w))"
      using big True by (auto simp: fit_inside_def)
    then show ?thesis using r1 r2 Ww pos by simp
  next
    case False
    then have lim: "w * H \<le> h * W" by simp
    have big': "\<not> (h \<le> H \<and> w \<le> W)" using big by blast
    have Hh: "H < h" by (rule shrink_side [OF pos(2) pos(1) pos(4) pos(3) big' lim])
    have r1: "round_div (w * H) h \<le> W"
      using pos(4) lim by (intro round_div_le) (simp_all add: mult.commute)
    have "w * H \<le> w * h" using Hh pos(3) by (simp add: mult_left_mono)
    then have r2: "round_div (w * H) h \<le> w" using pos(4) by (intro round_div_le) simp_all
    have "fit_inside W H w h = (max 1 (round_div (w * H) h), H)"
      using big False by (auto simp: fit_inside_def)
    then show ?thesis using r1 r2 Hh pos by simp
  qed
qed

text \<open>
  C9, as the claim states it, fails. A PNG of 3000 x 200 pixels passes \<^verbatim>\<open>isValidImage\<close>
  (both sides are between 100 and 16384). Fitted inside 1080 x 1920 it becomes
  1080 x 72: the output is 72 pixels high, less than 100.
\<close>

theorem normalized_size_below_100:
  "isValidImage panorama \<and>
   normalized_size example_config panorama = Inr (1080, 72) \<and>
   (case normalized_size example_config panorama of
      Inr (w, h) \<Rightarrow> \<not> (100 \<le> w \<and> 100 \<le> h) | Inl error \<Rightarrow> False)"
  by code_simp

text \<open>
  C9, amended. For an image that passes the validation and a box of at least one pixel
  each way, the normalized output is no wider than \<^verbatim>\<open>showWidth\<close> and no higher than
  \<^verbatim>\<open>showHeight\<close>, so its larger side is at most the larger of the two; neither side is
  larger than in the source (no upscale) and each side is at least 1 pixel. Each side is
  at least 100 pixels when the source already fits the box; a source that is shrunk may
  come out below 100 pixels on its shorter side.
\<close>

theorem normalized_size_bounds:
  assumes "isValidImage metadata" "1 \<le> showWidth cfg" "1 \<le> showHeight cfg"
  shows "\<exists>w h. normalized_size cfg metadata = Inr (w, h) \<and>
           w \<le> showWidth cfg \<and> h \<le> showHeight cfg \<and>
           max w h \<le> max (showWidth cfg) (showHeight cfg) \<and>
           1 \<le> w \<and> 1 \<le> h \<and> w \<le> pixel_width metadata \<and> h \<le> pixel_height metadata \<and>
           (pixel_width metadata \<le> showWidth cfg \<and> pixel_height metadata \<le> showHeight cfg
              \<longrightarrow> 100 \<le> w \<and> 100 \<le> h)"
proof -
  let ?W = "showWidth cfg" and ?H = "showHeight cfg"
  let ?w = "pixel_width metadata" and ?h = "pixel_height metadata"
  have src: "100 \<le> ?w" "100 \<le> ?h"
    using assms(1) by (auto simp: isValidImage_def split: if_splits)
  then have pos: "1 \<le> ?w" "1 \<le> ?h" by simp_all
  have b: "fst (fit_inside ?W ?H ?w ?h) \<le> ?W \<and> snd (fit_inside ?W ?H ?w ?h) \<le> ?H \<and>
         1 \<le> fst (fit_inside ?W ?H ?w ?h) \<and> 1 \<le> snd (fit_inside ?W ?H ?w ?h) \<and>
         fst (fit_inside ?W ?H ?w ?h) \<le> ?w \<and> snd (fit_inside ?W ?H ?w ?h) \<le> ?h"
    by (rule fit_inside_bounds [OF assms(2) assms(3) pos])
  have keep: "?w \<le> ?W \<and> ?h \<le> ?H \<Longrightarrow> fit_inside ?W ?H ?w ?h = (?w, ?h)"
    by (simp add: fit_inside_def)
  have n: "normalized_size cfg metadata =
      Inr (fst (fit_inside ?W ?H ?w ?h), snd (fit_inside ?W ?H ?w ?h))"
    using assms(1) by (simp add: normalized_size_def)
  show ?thesis
    using b src keep
    by (intro exI [of _ "fst (fit_inside ?W ?H ?w ?h)"] exI [of _ "snd (fit_inside ?W ?H ?w ?h)"])
       (auto simp: n)
qed

theorem normalized_size_bounds_witness:
  "isValidImage panorama \<and> 1 \<le> showWidth example_config \<and> 1 \<le> showHeight example_config \<and>
   (\<exists>w h. normalized_size example_config panorama = Inr (w, h) \<and>
      w \<le> showWidth example_config \<and> h \<le> showHeight example_config \<and>
      w \<le> pixel_width panorama \<and> h \<le> pixel_height panorama)"
proof -
  have h1: "isValidImage panorama" by code_simp
  have h2: "1 \<le> showWidth example_config" by code_simp
  have h3: "1 \<le> showHeight example_config" by code_simp
  from normalized_size_bounds [OF h1 h2 h3] h1 h2 h3 show ?thesis by blast
qed

section \<open>Folder scan on a cyclic folder graph\<close>

lemma two_cycle_diverges:
  "scanFolder fuel two_cycle (Some ''A'') (- 1) d = None \<and>
   scanFolder fuel two_cycle (Some ''B'') (- 1) d = None"
proof (induction fuel arbitrary: d)
  case 0
  show ?case by simp
next
  case (Suc fuel)
  show ?case using Suc [of "d + 1"] by (simp add: two_cycle_def)
qed

text \<open>
  The scan of OneDriveProvider hands its set of visited folders on to the nested calls: a
  call on a folder of the set returns at once, and on both graphs the scan returns with
  every image once.
\<close>

lemma onedrive_scanFolder_skips_visited:
  "f \<in> set visitedFolders \<Longrightarrow>
   onedrive_scanFolder (Suc fuel) children (Some f) maxDepth currentDepth visitedFolders =
     Some ([], visitedFolders)"
  by simp

lemma onedrive_scanFolder_examples:
  "onedrive_scanFolder 3 (items_of two_cycle) (Some ''A'') (- 1) 0 [] =
     Some ([''a.jpg'', ''b.jpg''], [''B'', ''A'']) \<and>
   onedrive_scanFolder 4 (items_of diamond) (Some ''A'') (- 1) 0 [] =
     Some ([''d.jpg''], [''C'', ''D'', ''B'', ''A''])"
  by code_simp

text \<open>
  C6. On the folder graph where \<open>A\<close> lists \<open>B\<close> and \<open>B\<close> lists \<open>A\<close>, the scan of
  \<^verbatim>\<open>GDriveAPI\<close> from \<open>A\<close> with unbounded depth does not return, whatever bound is put on the
  depth of nested calls: the set of visited folders is created anew in each call and
  never holds the folder the call came from. On a graph without cycles where \<open>D\<close> is
  reached by two paths, \<open>D\<close> is entered twice and its image is returned twice.
\<close>

theorem scanFolder_cycle_never_returns:
  "(\<forall>fuel. scanFolder fuel two_cycle (Some ''A'') (- 1) 0 = None) \<and>
   scanFolder 4 diamond (Some ''A'') (- 1) 0 = Some [''d.jpg'', ''d.jpg'']"
proof
  show "\<forall>fuel. scanFolder fuel two_cycle (Some ''A'') (- 1) 0 = None"
    using two_cycle_diverges by blast
  show "scanFolder 4 diamond (Some ''A'') (- 1) 0 = Some [''d.jpg'', ''d.jpg'']"
    by code_simp
qed

section \<open>Incremental scan: when the cursor is persisted\<close>

lemma apply_changes_eq:
  "apply_changes cs acc = (deletions cs, acc @ pushed_files cs)"
  by (induction cs arbitrary: acc) (simp_all add: deletions_def pushed_files_def)

lemma changes_loop_writes:
  "fst (changes_loop rs acc) = concat (map page_writes (consumed rs))"
  by (induction rs arbitrary: acc) (simp_all add: apply_changes_eq page_writes_def split_beta)

lemma changes_loop_result:
  "snd (changes_loop rs acc) = Inr fs \<Longrightarrow>
   fs = acc @ concat (map (\<lambda>r. pushed_files (changes r)) (consumed rs))"
proof (induction rs arbitrary: acc)
  case Nil
  then show ?case by simp
next
  case (Cons r rs)
  show ?case
  proof (cases "truthy (nextPageToken r)")
    case True
    then have "snd (changes_loop rs (acc @ pushed_files (changes r))) = Inr fs"
      using Cons.prems by (simp add: apply_changes_eq split_beta)
    from Cons.IH [OF this] show ?thesis using True by simp
  next
    case False
    then show ?thesis using Cons.prems by (simp add: apply_changes_eq split_beta)
  qed
qed

lemma concat_split_at:
  assumes "i < length ps"
  shows "concat (map f ps) = concat (map f (take i ps)) @ f (ps ! i) @ concat (map f (drop (Suc i) ps))"
proof -
  have "ps = take i ps @ ps ! i # drop (Suc i) ps" using assms by (rule id_take_nth_drop)
  then have "concat (map f ps) = concat (map f (take i ps @ ps ! i # drop (Suc i) ps))" by simp
  then show ?thesis by simp
qed


lemma only_cursor_and_deletions:
  "\<forall>w \<in> set (page_writes r).
     (case w of DeletePhoto pid \<Rightarrow> True | SaveSetting k v \<Rightarrow> k = ''changes_token'')"
  by (auto simp: page_writes_def deletions_def cursor_write_def split: option.splits)

text \<open>
  C5, as the claim states it, fails. The store is synchronised up to cursor \<open>t1\<close>; the page
  reports one new image and the new cursor \<open>t2\<close>. The scan writes \<open>t2\<close> to the settings
  and returns the image to its caller: when the cursor is persisted the creation has not
  been applied to the store, whose table is still empty.
\<close>

theorem cursor_saved_before_creation_applied:
  "fst (scanForChanges one_creation synced_store) = [SaveSetting ''changes_token'' ''t2''] \<and>
   snd (scanForChanges one_creation synced_store) = Inr [new_photo] \<and>
   settings (apply_writes (fst (scanForChanges one_creation synced_store)) synced_store)
     ''changes_token'' = Some ''t2'' \<and>
   photo_rows (apply_writes (fst (scanForChanges one_creation synced_store)) synced_store) = []"
  by code_simp

text \<open>
  C5, amended. In an incremental scan, when page \<open>i\<close> carries a new cursor \<open>t\<close>, the writes
  made before \<open>t\<close> is persisted are the writes of the pages before \<open>i\<close> and the deletions of
  page \<open>i\<close>: every deletion of the pages up to \<open>i\<close> has been applied by then. The scan
  writes nothing but deletions and the cursor; the created and updated images of the pages
  are returned to the caller, so they are applied, if at all, after the cursor has been
  persisted.
\<close>

theorem cursor_after_deletions:
  assumes inc: "truthy (settings db ''changes_token'')"
    and i: "i < length (consumed (responses e))"
    and t: "newStartPageToken (consumed (responses e) ! i) = Some t" "t \<noteq> []"
  shows "fst (scanForChanges e db) =
           writes_until i (consumed (responses e)) @ [SaveSetting ''changes_token'' t] @
           concat (map page_writes (drop (Suc i) (consumed (responses e)))) \<and>
         (\<forall>j \<le> i. set (deletions (changes (consumed (responses e) ! j)))
                     \<subseteq> set (writes_until i (consumed (responses e)))) \<and>
         (\<forall>w \<in> set (fst (scanForChanges e db)).
            case w of DeletePhoto pid \<Rightarrow> True | SaveSetting k v \<Rightarrow> k = ''changes_token'') \<and>
         (\<forall>fs. snd (scanForChanges e db) = Inr fs \<longrightarrow>
            fs = concat (map (\<lambda>r. pushed_files (changes r)) (consumed (responses e))))"
proof -
  let ?ps = "consumed (responses e)"
  have ws: "fst (scanForChanges e db) = concat (map page_writes ?ps)"
    using inc by (simp add: scanForChanges_def changes_loop_writes)
  have pw: "page_writes (?ps ! i) = deletions (changes (?ps ! i)) @ [SaveSetting ''changes_token'' t]"
    using t by (simp add: page_writes_def cursor_write_def)
  have a: "fst (scanForChanges e db) =
           writes_until i ?ps @ [SaveSetting ''changes_token'' t] @
           concat (map page_writes (drop (Suc i) ?ps))"
    unfolding ws writes_until_def using concat_split_at [OF i, of page_writes] pw by simp
  have b: "set (deletions (changes (?ps ! j))) \<subseteq> set (writes_until i ?ps)" if j: "j \<le> i" for j
  proof (cases "j = i")
    case True
    then show ?thesis by (simp add: writes_until_def)
  next
    case False
    then have lt: "j < i" using j by simp
    then have "?ps ! j \<in> set (take i ?ps)"
      using i by (auto simp: in_set_conv_nth intro!: exI [of _ j])
    then have "set (page_writes (?ps ! j)) \<subseteq> set (concat (map page_writes (take i ?ps)))"
      by auto
    then show ?thesis by (auto simp: writes_until_def page_writes_def)
  qed
  have c: "\<forall>w \<in> set (fst (scanForChanges e db)).
            case w of DeletePhoto pid \<Rightarrow> True | SaveSetting k v \<Rightarrow> k = ''changes_token''"
    unfolding ws using only_cursor_and_deletions by auto
  have d: "fs = concat (map (\<lambda>r. pushed_files (changes r)) ?ps)"
    if "snd (scanForChanges e db) = Inr fs" for fs
    using that inc changes_loop_result [of "responses e" "[]" fs] by (simp add: scanForChanges_def)
  show ?thesis using a b c d by blast
qed

theorem cursor_after_deletions_witness:
  "truthy (settings synced_store ''changes_token'') \<and>
   1 < length (consumed (responses two_pages)) \<and>
   newStartPageToken (consumed (responses two_pages) ! 1) = Some ''t3'' \<and>
   fst (scanForChanges two_pages synced_store) =
     [DeletePhoto ''x1'', DeletePhoto ''x2'', SaveSetting ''changes_token'' ''t3'']"
proof -
  have h1: "truthy (settings synced_store ''changes_token'')" by code_simp
  have h2: "1 < length (consumed (responses two_pages))" by code_simp
  have h3: "newStartPageToken (consumed (responses two_pages) ! 1) = Some ''t3''" by code_simp
  have h4: "''t3'' \<noteq> []" by simp
  have e1: "writes_until 1 (consumed (responses two_pages)) = [DeletePhoto ''x1'', DeletePhoto ''x2'']"
    by code_simp
  have e2: "concat (map page_writes (drop (Suc 1) (consumed (responses two_pages)))) = []"
    by code_simp
  from cursor_after_deletions [OF h1 h2 h3 h4] h1 h2 h3 e1 e2 show ?thesis by simp
qed

section \<open>Initialization: recovery from a corrupt file\<close>

text \<open>
  C4, as the claim states it, fails. The file is corrupt and nothing else goes wrong:
  \<^verbatim>\<open>initDatabase\<close> returns an empty database with its tables, and the setting
  \<^verbatim>\<open>sync.needsFullRescan\<close> is not in it.
\<close>

theorem recovery_writes_no_setting:
  "(case fst (initDatabase quiet_env (Some Corrupt)) of
      Inr db \<Rightarrow> settings db ''sync.needsFullRescan'' = None \<and> photo_rows db = [] \<and> has_schema db
    | Inl error \<Rightarrow> False)"
  by code_simp

text \<open>
  C4, amended. If the open is rejected, the integrity check does not answer within its
  ceiling or the file is corrupt, and the unlink, the second open and the creation of the
  schema succeed, then \<^verbatim>\<open>initDatabase\<close> returns to its caller, without an exception, a
  database that is the new content of the file: no photo, the tables created, and no
  setting at all. No \<^verbatim>\<open>sync.needsFullRescan\<close> is written; the store has no
  \<^verbatim>\<open>changes_token\<close>, and for that reason the next \<^verbatim>\<open>scanForChanges\<close> saves a start token
  and returns the result of a full scan.
\<close>

theorem initDatabase_rebuilds_empty:
  assumes bad: "open_rejects e \<or> check_times_out e \<or> disk = Some Corrupt"
    and ok: "\<not> unlink_rejects e" "\<not> reopen_rejects e" "\<not> createSchema_rejects e"
  shows "\<exists>db. initDatabase e disk = (Inr db, Some (Healthy db)) \<and>
              photo_rows db = [] \<and> has_schema db \<and> settings db = Map.empty \<and>
              (\<forall>se. scanForChanges se db =
                     ([SaveSetting ''changes_token'' (startPageToken se)], Inr (fullScan se)))"
proof -
  let ?db = "empty_db\<lparr>has_schema := True\<rparr>"
  have r: "rebuild e d = (Inr ?db, Some (Healthy ?db))" for d
    using ok by (simp add: rebuild_def sqlite_open_def)
  have "initDatabase e disk = (Inr ?db, Some (Healthy ?db))"
    using bad by (auto simp: initDatabase_def r sqlite_open_def split: db_file.splits option.splits)
  moreover have "scanForChanges se ?db =
      ([SaveSetting ''changes_token'' (startPageToken se)], Inr (fullScan se))" for se
    by (simp add: scanForChanges_def empty_db_def truthy_def)
  ultimately show ?thesis
    by (intro exI [of _ ?db]) (simp add: empty_db_def)
qed

theorem initDatabase_rebuilds_empty_witness:
  "\<exists>db. initDatabase quiet_env (Some Corrupt) = (Inr db, Some (Healthy db)) \<and>
        photo_rows db = [] \<and> has_schema db \<and> settings db = Map.empty"
proof -
  have h1: "open_rejects quiet_env \<or> check_times_out quiet_env \<or> Some Corrupt = Some Corrupt"
    by simp
  have h2: "\<not> unlink_rejects quiet_env" by (simp add: quiet_env_def)
  have h3: "\<not> reopen_rejects quiet_env" by (simp add: quiet_env_def)
  have h4: "\<not> createSchema_rejects quiet_env" by (simp add: quiet_env_def)
  from initDatabase_rebuilds_empty [OF h1 h2 h3 h4] show ?thesis by blast
qed

end
